theory Spec2Isabelle
  imports Main "HOL-Library.Sublist" "HOL-Library.Multiset"
begin

section \<open>Data model of package service\<close>

text \<open>
  \<^verbatim>\<open>os.Signal\<close> is an interface whose \<^verbatim>\<open>String()\<close> method gives the signal's
  description.  A signal value is its number together with the description its
  \<^verbatim>\<open>String()\<close> method returns.
\<close>

datatype os_Signal = os_Signal (signo: nat) (Signal_String: string)

text \<open>\<^verbatim>\<open>type SignalError struct { Signal os.Signal }\<close> (service.go, lines 96-98).\<close>

record SignalError =
  Signal :: os_Signal

text \<open>
  \<^verbatim>\<open>func (e *SignalError) Error() string { return "received " + e.Signal.String() }\<close>
  (service.go, lines 101-103).
\<close>

definition Error :: "SignalError \<Rightarrow> string" where
  "Error e = ''received '' @ Signal_String (Signal e)"

text \<open>
  The non-nil values of Go's \<^verbatim>\<open>error\<close> that occur: the two errors a context
  reports, a \<^verbatim>\<open>*SignalError\<close>, and an error made by \<^verbatim>\<open>errors.New\<close> in a
  task.  A nilable \<^verbatim>\<open>error\<close> is an \<open>error option\<close>, \<open>None\<close> being nil.
\<close>

datatype error =
    Canceled
  | DeadlineExceeded
  | SignalErr SignalError
  | ErrorString string

fun error_Error :: "error \<Rightarrow> string" where
  "error_Error Canceled = ''context canceled''"
| "error_Error DeadlineExceeded = ''context deadline exceeded''"
| "error_Error (SignalErr e) = Error e"
| "error_Error (ErrorString m) = m"

text \<open>
  A goroutine started through the group is running or has returned its result.
\<close>

datatype gstatus = Running | Finished "error option"

text \<open>
  A shutdown hook is an opaque \<^verbatim>\<open>func()\<close>; it is identified by a label.  What is
  observed of hooks is the sequence in which they begin and end, and on which
  goroutine: the hook manager, or the caller of \<^verbatim>\<open>OnShutdown\<close> number \<open>c\<close>.
\<close>

type_synonym hook = string

datatype runner = Manager | Caller nat

datatype log_entry = Begin runner hook | End runner hook

fun runner_of :: "log_entry \<Rightarrow> runner" where
  "runner_of (Begin r h) = r"
| "runner_of (End r h) = r"

definition by_runner :: "runner \<Rightarrow> log_entry list \<Rightarrow> log_entry list" where
  "by_runner r l = filter (\<lambda>e. runner_of e = r) l"

text \<open>
  The hook manager goroutine (service.go, lines 46-59): at its \<^verbatim>\<open>select\<close>
  (\<open>Accepting\<close>), in the loop \<^verbatim>\<open>for i := len(funcs) - 1; i >= 0; i--\<close> with loop
  variable \<open>i\<close> and a flag telling whether \<^verbatim>\<open>funcs[i]()\<close> is executing
  (\<open>Draining\<close>), or returned (\<open>Closed\<close>).
\<close>

datatype mstate = Accepting | Draining int bool | Closed

text \<open>
  A call of \<^verbatim>\<open>OnShutdown\<close> (service.go, lines 86-92): blocked in its
  \<^verbatim>\<open>select\<close>, returned through the send case of line 88, executing \<^verbatim>\<open>f()\<close> in
  the case of lines 89-90, or returned after that \<^verbatim>\<open>f()\<close>.
\<close>

datatype cstatus = AtSelect | Sent | Calling | Called

text \<open>
  The state of one Service: the arguments of \<^verbatim>\<open>NewService\<close>, the context derived by
  \<^verbatim>\<open>errgroup.WithContext\<close>, the group, the channels and the goroutines.
  \<^item> \<open>sigs\<close>: the signals given to \<^verbatim>\<open>NewService\<close>;
  \<^item> \<open>parent_err\<close>: \<^verbatim>\<open>Err()\<close> of the parent context;
  \<^item> \<open>ctx_err\<close>: \<^verbatim>\<open>ctx.Err()\<close> of the derived context; \<^verbatim>\<open>ctx.Done()\<close> is closed
    exactly when it is not nil;
  \<^item> \<open>g_err\<close>, \<open>wg\<close>: the group's error slot and its count of running goroutines;
  \<^item> \<open>sigC\<close>: the channel of capacity 1 of line 31;
  \<^item> \<open>bridge\<close>: the goroutine of lines 32-41, \<open>None\<close> when it was not started;
  \<^item> \<open>funcs\<close>, \<open>mgr\<close>: the hook manager's slice and its control state;
  \<^item> \<open>tasks\<close>: the goroutines started by \<^verbatim>\<open>Go\<close>, in the order of the calls;
  \<^item> \<open>calls\<close>: the calls of \<^verbatim>\<open>OnShutdown\<close>, in the order they were made, each
    with its argument;
  \<^item> \<open>log\<close>: the hooks begun and ended so far;
  \<^item> \<open>wait_ret\<close>: what \<^verbatim>\<open>Wait\<close> returned, \<open>None\<close> while it has not returned.
\<close>

record state =
  sigs :: "os_Signal list"
  parent_err :: "error option"
  ctx_err :: "error option"
  g_err :: "error option"
  wg :: nat
  sigC :: "os_Signal option"
  bridge :: "gstatus option"
  funcs :: "hook list"
  mgr :: mstate
  tasks :: "gstatus list"
  calls :: "(hook \<times> cstatus) list"
  log :: "log_entry list"
  wait_ret :: "error option option"

section \<open>The task group\<close>

text \<open>
  Cancelling the derived context: the first cancellation fixes \<^verbatim>\<open>ctx.Err()\<close>, later
  ones change nothing.
\<close>

definition cancel :: "error \<Rightarrow> state \<Rightarrow> state" where
  "cancel e s = (case ctx_err s of None \<Rightarrow> s\<lparr>ctx_err := Some e\<rparr> | Some _ \<Rightarrow> s)"

text \<open>
  Modelled from the spec: the task group \<^verbatim>\<open>errgroup.Group\<close> of
  \<^verbatim>\<open>golang.org/x/sync/errgroup\<close>, which service.go imports and which is not among the
  sources.  Section 4.1: the group "maintains a shared cancellable context and a one-shot
  error slot.  The first task to return a non-nil error stores it in the slot (subsequent
  stores are no-ops) and cancels the shared context; a task returning nil has no effect on
  the slot."  The comment of \<^verbatim>\<open>Go\<close> in service.go (lines 70-71) says the same: "The first
  call to return a non-nil error cancels the service; its error will be returned by Wait."
  \<open>group_Go\<close> counts a goroutine in; \<open>group_done r\<close> is what the group does when a
  goroutine it started returns \<open>r\<close>: it fills the slot if \<open>r\<close> is the first error and then
  cancels the context, and counts the goroutine out.
\<close>

definition group_Go :: "state \<Rightarrow> state" where
  "group_Go s = s\<lparr>wg := wg s + 1\<rparr>"

definition group_done :: "error option \<Rightarrow> state \<Rightarrow> state" where
  "group_done r s =
     (let s' = (case r of
                  None \<Rightarrow> s
                | Some e \<Rightarrow> (if g_err s = None then cancel Canceled (s\<lparr>g_err := Some e\<rparr>) else s))
      in s'\<lparr>wg := wg s' - 1\<rparr>)"

text \<open>
  Modelled from the spec: \<^verbatim>\<open>Group.Wait\<close> of the same package.  Section 4.1: Wait "blocks
  the caller until every spawned task (including the two internal management tasks) has
  returned.  Returns the single retained TerminationCause's underlying error, or nil".
  The comment of \<^verbatim>\<open>Wait\<close> in service.go (lines 76-78): "Wait waits for all goroutines
  started by this service [...] to complete.  The error returned will be the error that
  caused the service to be canceled, if any."  The outer \<open>None\<close> is a blocked caller;
  otherwise the result is the slot, \<open>Some None\<close> being a nil error.
\<close>

definition group_Wait :: "state \<Rightarrow> error option option" where
  "group_Wait s = (if wg s = 0 then Some (g_err s) else None)"

section \<open>The operations of service.go\<close>

text \<open>
  \<^verbatim>\<open>NewService(ctx, sig...)\<close> (lines 27-66).  Its first argument here is \<^verbatim>\<open>Err()\<close> of
  the parent context at the call: a context derived from a cancelled parent is cancelled
  from the start, with the parent's error.  The signal goroutine is started only
  \<^verbatim>\<open>if len(sig) > 0\<close>; the hook manager always.
\<close>

definition NewService :: "error option \<Rightarrow> os_Signal list \<Rightarrow> state" where
  "NewService parent sig =
     (let s0 = \<lparr>sigs = sig, parent_err = parent, ctx_err = parent, g_err = None, wg = 0,
                sigC = None, bridge = None, funcs = [], mgr = Accepting, tasks = [],
                calls = [], log = [], wait_ret = None\<rparr>;
          s1 = (if length sig > 0 then group_Go (s0\<lparr>bridge := Some Running\<rparr>) else s0)
      in group_Go s1)"

text \<open>\<^verbatim>\<open>func (s *Service) Go(f func() error) { s.g.Go(f) }\<close> (lines 72-74).\<close>

definition Go :: "state \<Rightarrow> state" where
  "Go s = group_Go (s\<lparr>tasks := tasks s @ [Running]\<rparr>)"

text \<open>\<^verbatim>\<open>func (s *Service) Wait() error { return s.g.Wait() }\<close> (lines 79-81).\<close>

definition Wait :: "state \<Rightarrow> state option" where
  "Wait s = (case group_Wait s of
               None \<Rightarrow> None
             | Some r \<Rightarrow> Some (s\<lparr>wait_ret := Some r\<rparr>))"

text \<open>
  \<^verbatim>\<open>OnShutdown(f)\<close> (lines 86-92) enters its \<^verbatim>\<open>select\<close>.  The two cases are the
  events \<open>Send\<close> and \<open>Done_Call\<close> below.
\<close>

definition OnShutdown :: "hook \<Rightarrow> state \<Rightarrow> state" where
  "OnShutdown f s = s\<lparr>calls := calls s @ [(f, AtSelect)]\<rparr>"

section \<open>Executions\<close>

text \<open>
  The goroutines run interleaved; an execution is a sequence of events, each one atomic.
  \<^item> \<open>ParentCancel e\<close>: the parent context is cancelled, its \<^verbatim>\<open>Err()\<close> becoming \<open>e\<close>;
  \<^item> \<open>Deliver x\<close>: the operating system delivers the signal \<open>x\<close>, one of those given to
    \<^verbatim>\<open>signal.Notify\<close> (line 42); the send to \<^verbatim>\<open>sigC\<close> does not block, a signal that
    finds the buffer full is dropped;
  \<^item> \<open>Bridge_Done\<close>, \<open>Bridge_Sig\<close>: the signal goroutine takes the case of line 34, of
    line 36, and returns;
  \<^item> \<open>Call_Go\<close>: a call of \<^verbatim>\<open>Go\<close>; \<open>Return t r\<close>: task number \<open>t\<close> returns \<open>r\<close>;
  \<^item> \<open>Call_OnShutdown f\<close>: a call of \<^verbatim>\<open>OnShutdown(f)\<close> reaches its \<^verbatim>\<open>select\<close>;
  \<^item> \<open>Send c\<close>: call \<open>c\<close> and the manager meet on \<^verbatim>\<open>shutdownC\<close> (lines 88 and 50-51);
  \<^item> \<open>Done_Call c\<close>: call \<open>c\<close> takes the case of line 89 and begins \<^verbatim>\<open>f()\<close>;
    \<open>Done_Return c\<close>: that \<^verbatim>\<open>f()\<close> returns and so does the call;
  \<^item> \<open>Mgr_Done\<close>: the manager takes the case of line 52; \<open>Mgr_Call\<close>: it begins
    \<^verbatim>\<open>funcs[i]()\<close>; \<open>Mgr_Return\<close>: that hook returns, \<^verbatim>\<open>i--\<close>; \<open>Mgr_Exit\<close>: the loop is
    over and the manager returns \<^verbatim>\<open>ctx.Err()\<close>;
  \<^item> \<open>Call_Wait\<close>: \<^verbatim>\<open>Wait\<close> returns.

  A \<^verbatim>\<open>select\<close> blocks only when none of its cases can proceed, and \<^verbatim>\<open>shutdownC\<close>
  is unbuffered: a send on it proceeds only with a goroutine already blocked in a receive on
  it, and a receive only with one already blocked in a send.  Both \<^verbatim>\<open>select\<close>s on
  \<^verbatim>\<open>shutdownC\<close> (lines 49-57 and 87-91) have a case on \<^verbatim>\<open>ctx.Done()\<close>.  Closing
  \<^verbatim>\<open>ctx.Done()\<close> wakes every goroutine blocked in such a \<^verbatim>\<open>select\<close>, with its Done
  case, and from then on neither \<^verbatim>\<open>select\<close> blocks.  So once the context is cancelled no
  goroutine is blocked on \<^verbatim>\<open>shutdownC\<close>, and \<open>Send\<close> happens only while the context is
  not cancelled: after the cancellation the manager can only take the case of line 52, and a
  call of \<^verbatim>\<open>OnShutdown\<close> only the case of line 89.  The section on the run-time level
  below spells this out, with the blocking and the waking as steps of their own.

  The signal goroutine's \<^verbatim>\<open>select\<close> (lines 33-40) receives from the buffered \<^verbatim>\<open>sigC\<close>
  and from \<^verbatim>\<open>ctx.Done()\<close>; when it is reached with a signal in the buffer and the context
  cancelled, both cases can proceed and either is taken.

  An index out of range, \<^verbatim>\<open>funcs[i]\<close> with \<open>i\<close> not below \<^verbatim>\<open>len(funcs)\<close>, would
  panic; \<open>Mgr_Call\<close> and \<open>Mgr_Return\<close> cannot happen there, and \<open>mgr_inv\<close> below shows that
  no execution gets there.
\<close>

datatype event =
    ParentCancel error
  | Deliver os_Signal
  | Bridge_Done
  | Bridge_Sig
  | Call_Go
  | Return nat "error option"
  | Call_OnShutdown hook
  | Send nat
  | Done_Call nat
  | Done_Return nat
  | Mgr_Done
  | Mgr_Call
  | Mgr_Return
  | Mgr_Exit
  | Call_Wait

text \<open>\<open>fire ev s\<close> is the state after \<open>ev\<close>, and \<open>None\<close> when \<open>ev\<close> cannot happen in \<open>s\<close>.\<close>

fun fire :: "event \<Rightarrow> state \<Rightarrow> state option" where
  "fire (ParentCancel e) s =
     (if parent_err s = None then Some (cancel e (s\<lparr>parent_err := Some e\<rparr>)) else None)"
| "fire (Deliver x) s =
     (if x \<in> set (sigs s)
      then Some (if sigC s = None then s\<lparr>sigC := Some x\<rparr> else s)
      else None)"
| "fire Bridge_Done s =
     (if bridge s = Some Running \<and> ctx_err s \<noteq> None
      then Some (group_done (ctx_err s) (s\<lparr>bridge := Some (Finished (ctx_err s))\<rparr>))
      else None)"
| "fire Bridge_Sig s =
     (if bridge s = Some Running
      then (case sigC s of
              None \<Rightarrow> None
            | Some x \<Rightarrow>
                Some (group_done (Some (SignalErr \<lparr>Signal = x\<rparr>))
                        (s\<lparr>sigC := None,
                           bridge := Some (Finished (Some (SignalErr \<lparr>Signal = x\<rparr>)))\<rparr>)))
      else None)"
| "fire Call_Go s = Some (Go s)"
| "fire (Return t r) s =
     (if t < length (tasks s) \<and> tasks s ! t = Running
      then Some (group_done r (s\<lparr>tasks := (tasks s)[t := Finished r]\<rparr>))
      else None)"
| "fire (Call_OnShutdown f) s = Some (OnShutdown f s)"
| "fire (Send c) s =
     (if c < length (calls s) \<and> snd (calls s ! c) = AtSelect \<and> mgr s = Accepting
         \<and> ctx_err s = None
      then Some (s\<lparr>funcs := funcs s @ [fst (calls s ! c)],
                   calls := (calls s)[c := (fst (calls s ! c), Sent)]\<rparr>)
      else None)"
| "fire (Done_Call c) s =
     (if c < length (calls s) \<and> snd (calls s ! c) = AtSelect \<and> ctx_err s \<noteq> None
      then Some (s\<lparr>calls := (calls s)[c := (fst (calls s ! c), Calling)],
                   log := log s @ [Begin (Caller c) (fst (calls s ! c))]\<rparr>)
      else None)"
| "fire (Done_Return c) s =
     (if c < length (calls s) \<and> snd (calls s ! c) = Calling
      then Some (s\<lparr>calls := (calls s)[c := (fst (calls s ! c), Called)],
                   log := log s @ [End (Caller c) (fst (calls s ! c))]\<rparr>)
      else None)"
| "fire Mgr_Done s =
     (if mgr s = Accepting \<and> ctx_err s \<noteq> None
      then Some (s\<lparr>mgr := Draining (int (length (funcs s)) - 1) False\<rparr>)
      else None)"
| "fire Mgr_Call s =
     (case mgr s of
        Draining i False \<Rightarrow>
          (if 0 \<le> i \<and> i < int (length (funcs s))
           then Some (s\<lparr>mgr := Draining i True,
                        log := log s @ [Begin Manager (funcs s ! nat i)]\<rparr>)
           else None)
      | _ \<Rightarrow> None)"
| "fire Mgr_Return s =
     (case mgr s of
        Draining i True \<Rightarrow>
          (if 0 \<le> i \<and> i < int (length (funcs s))
           then Some (s\<lparr>mgr := Draining (i - 1) False,
                        log := log s @ [End Manager (funcs s ! nat i)]\<rparr>)
           else None)
      | _ \<Rightarrow> None)"
| "fire Mgr_Exit s =
     (case mgr s of
        Draining i False \<Rightarrow>
          (if i < 0 then Some (group_done (ctx_err s) (s\<lparr>mgr := Closed\<rparr>)) else None)
      | _ \<Rightarrow> None)"
| "fire Call_Wait s = Wait s"

fun exec :: "event list \<Rightarrow> state \<Rightarrow> state option" where
  "exec [] s = Some s"
| "exec (ev # evs) s = (case fire ev s of None \<Rightarrow> None | Some s' \<Rightarrow> exec evs s')"

section \<open>The selects on shutdownC at run time\<close>

text \<open>
  The events above take a \<^verbatim>\<open>select\<close> in one step.  At run time a goroutine that reaches a
  \<^verbatim>\<open>select\<close> takes a case that can proceed, or blocks when none can, and a blocked
  goroutine is woken by the one that makes a case of it proceed.  This section adds that
  level for the two \<^verbatim>\<open>select\<close>s on \<^verbatim>\<open>shutdownC\<close>.  The lemmas \<open>rt_exec_model\<close> and
  \<open>model_exec_rt\<close> below show that, up to the blocking steps, the executions at run time
  are the executions of the model: a hand-over on a cancelled context, which the condition
  of \<open>Send\<close> excludes, does not happen at run time either.
\<close>

text \<open>
  The state at run time adds who is blocked on \<^verbatim>\<open>shutdownC\<close>: the manager in its receive,
  and the calls of \<^verbatim>\<open>OnShutdown\<close> blocked in their send.
\<close>

record rt_state =
  base :: state
  mgr_parked :: bool
  blocked :: "nat list"

text \<open>
  The events at run time: those of the model, the manager's \<^verbatim>\<open>select\<close> blocking
  (\<open>Mgr_Park\<close>) and the \<^verbatim>\<open>select\<close> of call \<open>c\<close> blocking (\<open>Call_Park c\<close>).
\<close>

datatype rt_event = Model event | Mgr_Park | Call_Park nat

text \<open>Closing \<^verbatim>\<open>ctx.Done()\<close> wakes every goroutine blocked in a \<^verbatim>\<open>select\<close> on it.\<close>

definition wake :: "rt_state \<Rightarrow> rt_state" where
  "wake r = (if ctx_err (base r) \<noteq> None then r\<lparr>mgr_parked := False, blocked := []\<rparr> else r)"

text \<open>
  A \<^verbatim>\<open>select\<close> blocks when none of its cases can proceed: the context is not cancelled
  and nobody is blocked on the other side of \<^verbatim>\<open>shutdownC\<close>.  The hand-over \<open>Send c\<close>
  needs one side blocked; nothing else is asked of the context.  Every other event is the
  model's, followed by the wake-up if the context is now cancelled.
\<close>

fun rt_fire :: "rt_event \<Rightarrow> rt_state \<Rightarrow> rt_state option" where
  "rt_fire Mgr_Park r =
     (if mgr (base r) = Accepting \<and> \<not> mgr_parked r \<and> ctx_err (base r) = None
         \<and> blocked r = []
      then Some (r\<lparr>mgr_parked := True\<rparr>) else None)"
| "rt_fire (Call_Park c) r =
     (if c < length (calls (base r)) \<and> snd (calls (base r) ! c) = AtSelect
         \<and> c \<notin> set (blocked r) \<and> ctx_err (base r) = None \<and> \<not> mgr_parked r
      then Some (r\<lparr>blocked := blocked r @ [c]\<rparr>) else None)"
| "rt_fire (Model (Send c)) r =
     (if c < length (calls (base r)) \<and> snd (calls (base r) ! c) = AtSelect
         \<and> mgr (base r) = Accepting \<and> (mgr_parked r \<or> c \<in> set (blocked r))
      then Some (r\<lparr>base := (base r)\<lparr>funcs := funcs (base r) @ [fst (calls (base r) ! c)],
                                     calls := (calls (base r))[c := (fst (calls (base r) ! c), Sent)]\<rparr>,
                   mgr_parked := False, blocked := removeAll c (blocked r)\<rparr>)
      else None)"
| "rt_fire (Model ev) r =
     (case fire ev (base r) of None \<Rightarrow> None | Some s' \<Rightarrow> Some (wake (r\<lparr>base := s'\<rparr>)))"

fun rt_exec :: "rt_event list \<Rightarrow> rt_state \<Rightarrow> rt_state option" where
  "rt_exec [] r = Some r"
| "rt_exec (e # es) r = (case rt_fire e r of None \<Rightarrow> None | Some r' \<Rightarrow> rt_exec es r')"

text \<open>The model's events of an execution at run time.\<close>

fun model_events :: "rt_event list \<Rightarrow> event list" where
  "model_events [] = []"
| "model_events (Model ev # es) = ev # model_events es"
| "model_events (e # es) = model_events es"

definition rt_NewService :: "error option \<Rightarrow> os_Signal list \<Rightarrow> rt_state" where
  "rt_NewService parent sig = \<lparr>base = NewService parent sig, mgr_parked = False, blocked = []\<rparr>"

text \<open>On a cancelled context nobody is blocked; the two sides are never blocked together.\<close>

definition park_inv :: "rt_state \<Rightarrow> bool" where
  "park_inv r \<longleftrightarrow>
     (ctx_err (base r) \<noteq> None \<longrightarrow> \<not> mgr_parked r \<and> blocked r = []) \<and>
     (mgr_parked r \<longrightarrow> blocked r = [])"

section \<open>What is observed of an execution\<close>

text \<open>
  The non-nil error, if any, that a goroutine of the group returns in an event: a task's
  own result, \<^verbatim>\<open>ctx.Err()\<close> (lines 35 and 56), or \<^verbatim>\<open>&SignalError{Signal: sig}\<close>
  (line 37).
\<close>

fun returned :: "event \<Rightarrow> state \<Rightarrow> error option" where
  "returned (Return t r) s = r"
| "returned Bridge_Done s = ctx_err s"
| "returned Bridge_Sig s = map_option (\<lambda>x. SignalErr \<lparr>Signal = x\<rparr>) (sigC s)"
| "returned Mgr_Exit s = ctx_err s"
| "returned _ s = None"

text \<open>
  The error of the first goroutine, in completion order, that returns a non-nil error in
  the execution \<open>evs\<close> from \<open>s\<close>; \<open>None\<close> when there is none.
\<close>

fun first_failure :: "event list \<Rightarrow> state \<Rightarrow> error option" where
  "first_failure [] s = None"
| "first_failure (ev # evs) s =
     (case fire ev s of
        None \<Rightarrow> None
      | Some s' \<Rightarrow> (case returned ev s of Some e \<Rightarrow> Some e | None \<Rightarrow> first_failure evs s'))"

text \<open>Events from outside the service, and a task started by \<^verbatim>\<open>Go\<close> that fails.\<close>

fun external :: "event \<Rightarrow> bool" where
  "external (ParentCancel e) = True"
| "external (Deliver x) = True"
| "external _ = False"

fun task_failure :: "event \<Rightarrow> bool" where
  "task_failure (Return t (Some e)) = True"
| "task_failure _ = False"

text \<open>
  Every goroutine of the group has returned: the tasks, the signal goroutine if it was
  started, and the hook manager.  \<open>running\<close> counts those that have not.
\<close>

definition all_returned :: "state \<Rightarrow> bool" where
  "all_returned s \<longleftrightarrow>
     Running \<notin> set (tasks s) \<and> bridge s \<noteq> Some Running \<and> mgr s = Closed"

definition running :: "state \<Rightarrow> nat" where
  "running s = count_list (tasks s) Running
       + (if bridge s = Some Running then 1 else 0)
       + (if mgr s = Closed then 0 else 1)"

text \<open>
  The manager running the hooks \<open>fs\<close> in reverse, one after the other, each to its end.
\<close>

definition drain_seq :: "hook list \<Rightarrow> log_entry list" where
  "drain_seq fs = concat (map (\<lambda>h. [Begin Manager h, End Manager h]) (rev fs))"

text \<open>The events of the manager's loop over a queue of \<open>k\<close> hooks that all return.\<close>

definition drain_events :: "nat \<Rightarrow> event list" where
  "drain_events k = Mgr_Done # concat (replicate k [Mgr_Call, Mgr_Return]) @ [Mgr_Exit]"

text \<open>The hooks of the calls of \<^verbatim>\<open>OnShutdown\<close> that returned through the send of line 88.\<close>

definition sent_hooks :: "state \<Rightarrow> hook list" where
  "sent_hooks s = map fst (filter (\<lambda>c. snd c = Sent) (calls s))"

text \<open>What call \<open>c\<close> of \<^verbatim>\<open>OnShutdown\<close> with hook \<open>f\<close> has run by itself, by its status.\<close>

fun caller_log :: "nat \<Rightarrow> hook \<Rightarrow> cstatus \<Rightarrow> log_entry list" where
  "caller_log c f AtSelect = []"
| "caller_log c f Sent = []"
| "caller_log c f Calling = [Begin (Caller c) f]"
| "caller_log c f Called = [Begin (Caller c) f, End (Caller c) f]"

text \<open>What the manager has run, by its control state and its queue.\<close>

fun manager_log :: "mstate \<Rightarrow> hook list \<Rightarrow> log_entry list" where
  "manager_log Accepting fs = []"
| "manager_log (Draining i b) fs =
     drain_seq (drop (nat (i + 1)) fs) @ (if b then [Begin Manager (fs ! nat i)] else [])"
| "manager_log Closed fs = drain_seq fs"

section \<open>Invariants of the executions\<close>

text \<open>
  The group's slot and the context: an error in the slot means a cancelled context, the
  manager leaves its \<^verbatim>\<open>select\<close> only on a cancelled context and has filled the slot once
  it has returned, and \<^verbatim>\<open>Wait\<close> returns the slot, after the manager.
\<close>

definition slot_inv :: "state \<Rightarrow> bool" where
  "slot_inv s \<longleftrightarrow>
     (g_err s \<noteq> None \<longrightarrow> ctx_err s \<noteq> None) \<and>
     (mgr s \<noteq> Accepting \<longrightarrow> ctx_err s \<noteq> None) \<and>
     (mgr s = Closed \<longrightarrow> g_err s \<noteq> None) \<and>
     (\<forall>r. wait_ret s = Some r \<longrightarrow> mgr s = Closed \<and> r = g_err s)"

text \<open>The manager's part of the log follows its control state; its loop variable is in range.\<close>

definition mgr_inv :: "state \<Rightarrow> bool" where
  "mgr_inv s \<longleftrightarrow>
     by_runner Manager (log s) = manager_log (mgr s) (funcs s) \<and>
     (\<forall>i b. mgr s = Draining i b \<longrightarrow>
        - 1 \<le> i \<and> i < int (length (funcs s)) \<and> (b \<longrightarrow> 0 \<le> i))"

text \<open>Each call's part of the log follows its status.\<close>

definition calls_inv :: "state \<Rightarrow> bool" where
  "calls_inv s \<longleftrightarrow>
     (\<forall>c. by_runner (Caller c) (log s) =
        (if c < length (calls s)
         then caller_log c (fst (calls s ! c)) (snd (calls s ! c)) else []))"

text \<open>
  The queue holds the hooks that were sent; while the context is not cancelled no hook has
  begun, the manager is at its \<^verbatim>\<open>select\<close> and every call is blocked or has sent.
\<close>

definition queue_inv :: "state \<Rightarrow> bool" where
  "queue_inv s \<longleftrightarrow>
     mset (funcs s) = mset (sent_hooks s) \<and>
     (ctx_err s = None \<longrightarrow>
        log s = [] \<and> mgr s = Accepting \<and>
        (\<forall>c \<in> set (calls s). snd c = AtSelect \<or> snd c = Sent))"

text \<open>
  The signal goroutine exists exactly when signals were given, the buffer holds one of
  them, and the goroutine's result is the context's error or a SignalError for one of them.
\<close>

definition bridge_inv :: "os_Signal list \<Rightarrow> state \<Rightarrow> bool" where
  "bridge_inv sg s \<longleftrightarrow>
     sigs s = sg \<and> (bridge s = None \<longleftrightarrow> sg = []) \<and>
     (\<forall>x. sigC s = Some x \<longrightarrow> x \<in> set sg) \<and>
     (\<forall>r. bridge s = Some (Finished r) \<longrightarrow>
        r \<noteq> None \<and> (r = ctx_err s \<or> (\<exists>x \<in> set sg. r = Some (SignalErr \<lparr>Signal = x\<rparr>))))"

text \<open>
  Call \<open>c\<close> with hook \<open>f\<close>, made on a cancelled context when the queue was \<open>q\<close>: it never
  sends and the queue stays \<open>q\<close>.
\<close>

definition late_inv :: "nat \<Rightarrow> hook \<Rightarrow> hook list \<Rightarrow> state \<Rightarrow> bool" where
  "late_inv c f q s \<longleftrightarrow>
     ctx_err s \<noteq> None \<and> c < length (calls s) \<and> fst (calls s ! c) = f \<and>
     snd (calls s ! c) \<noteq> Sent \<and> funcs s = q"

text \<open>Nothing has happened that could end the service.\<close>

definition idle :: "state \<Rightarrow> bool" where
  "idle s \<longleftrightarrow>
     ctx_err s = None \<and> g_err s = None \<and> sigC s = None \<and> mgr s = Accepting \<and>
     wait_ret s = None \<and> wg s = running s"

section \<open>Example executions\<close>

text \<open>
  The signals and the error of the package's tests, and executions that follow them:
  TestServiceError up to the join, TestOnShutdown up to the return of \<^verbatim>\<open>Wait\<close> and after the
  third hook, a service that is registering hooks, and a service that has just received
  SIGUSR1.  Each state is the one its execution ends in.
\<close>

definition SIGUSR1 :: os_Signal where
  "SIGUSR1 = os_Signal 10 ''user defined signal 1''"

definition SIGUSR2 :: os_Signal where
  "SIGUSR2 = os_Signal 12 ''user defined signal 2''"

definition test_error :: error where
  "test_error = ErrorString ''test error''"

definition service_error_run :: "event list" where
  "service_error_run = [Call_Go, Return 0 (Some test_error), Bridge_Done, Mgr_Done, Mgr_Exit]"

definition service_error_joined :: state where
  "service_error_joined =
     \<lparr>sigs = [SIGUSR2], parent_err = None, ctx_err = Some Canceled,
      g_err = Some test_error, wg = 0, sigC = None,
      bridge = Some (Finished (Some Canceled)), funcs = [], mgr = Closed,
      tasks = [Finished (Some test_error)], calls = [], log = [], wait_ret = None\<rparr>"

definition on_shutdown_run :: "event list" where
  "on_shutdown_run =
     [Call_OnShutdown ''shutdown-1'', Send 0, Call_OnShutdown ''shutdown-2'', Send 1,
      Call_Go, Return 0 (Some test_error),
      Mgr_Done, Mgr_Call, Mgr_Return, Mgr_Call, Mgr_Return, Mgr_Exit, Call_Wait]"

definition on_shutdown_joined :: state where
  "on_shutdown_joined =
     \<lparr>sigs = [], parent_err = None, ctx_err = Some Canceled,
      g_err = Some test_error, wg = 0, sigC = None, bridge = None,
      funcs = [''shutdown-1'', ''shutdown-2''], mgr = Closed,
      tasks = [Finished (Some test_error)],
      calls = [(''shutdown-1'', Sent), (''shutdown-2'', Sent)],
      log = [Begin Manager ''shutdown-2'', End Manager ''shutdown-2'',
             Begin Manager ''shutdown-1'', End Manager ''shutdown-1''],
      wait_ret = Some (Some test_error)\<rparr>"

definition registering_run :: "event list" where
  "registering_run =
     [Call_OnShutdown ''shutdown-1'', Send 0, Call_OnShutdown ''shutdown-2'', Call_Go,
      Return 0 None]"

definition registering :: state where
  "registering =
     \<lparr>sigs = [], parent_err = None, ctx_err = None, g_err = None, wg = 1, sigC = None,
      bridge = None, funcs = [''shutdown-1''], mgr = Accepting, tasks = [Finished None],
      calls = [(''shutdown-1'', Sent), (''shutdown-2'', AtSelect)], log = [],
      wait_ret = None\<rparr>"

definition signalled :: state where
  "signalled =
     \<lparr>sigs = [SIGUSR1], parent_err = None, ctx_err = None, g_err = None, wg = 3,
      sigC = Some SIGUSR1, bridge = Some Running, funcs = [], mgr = Accepting,
      tasks = [Running], calls = [], log = [], wait_ret = None\<rparr>"

text \<open>
  At run time: TestOnShutdown, with the manager blocked in its \<^verbatim>\<open>select\<close> when the first
  hook is sent and the second call blocked when the manager receives its hook; and a service
  whose task has failed while the manager was blocked, followed by a call of
  \<^verbatim>\<open>OnShutdown\<close> whose hook runs while the manager drains its queue.
\<close>

definition rt_on_shutdown_run :: "rt_event list" where
  "rt_on_shutdown_run =
     [Mgr_Park, Model (Call_OnShutdown ''shutdown-1''), Model (Send 0),
      Model (Call_OnShutdown ''shutdown-2''), Call_Park 1, Model (Send 1),
      Model Call_Go, Model (Return 0 (Some test_error)),
      Model Mgr_Done, Model Mgr_Call, Model Mgr_Return, Model Mgr_Call, Model Mgr_Return,
      Model Mgr_Exit, Model Call_Wait]"

definition rt_on_shutdown_joined :: rt_state where
  "rt_on_shutdown_joined = \<lparr>base = on_shutdown_joined, mgr_parked = False, blocked = []\<rparr>"

definition cancelled_run :: "rt_event list" where
  "cancelled_run =
     [Mgr_Park, Model (Call_OnShutdown ''shutdown-1''), Model (Send 0), Mgr_Park,
      Model Call_Go, Model (Return 0 (Some test_error))]"

definition cancelled :: rt_state where
  "cancelled =
     \<lparr>base =
        \<lparr>sigs = [], parent_err = None, ctx_err = Some Canceled, g_err = Some test_error,
         wg = 1, sigC = None, bridge = None, funcs = [''shutdown-1''], mgr = Accepting,
         tasks = [Finished (Some test_error)], calls = [(''shutdown-1'', Sent)], log = [],
         wait_ret = None\<rparr>,
      mgr_parked = False, blocked = []\<rparr>"

definition late_run :: "rt_event list" where
  "late_run =
     [Model (Done_Call 1), Model Mgr_Done, Model Mgr_Call, Model (Done_Return 1),
      Model Mgr_Return, Model Mgr_Exit]"

definition late_done :: rt_state where
  "late_done =
     \<lparr>base =
        \<lparr>sigs = [], parent_err = None, ctx_err = Some Canceled, g_err = Some test_error,
         wg = 0, sigC = None, bridge = None, funcs = [''shutdown-1''], mgr = Closed,
         tasks = [Finished (Some test_error)],
         calls = [(''shutdown-1'', Sent), (''shutdown-3'', Called)],
         log = [Begin (Caller 1) ''shutdown-3'', Begin Manager ''shutdown-1'',
                End (Caller 1) ''shutdown-3'', End Manager ''shutdown-1''],
         wait_ret = None\<rparr>,
      mgr_parked = False, blocked = []\<rparr>"

definition rt_registering_run :: "rt_event list" where
  "rt_registering_run =
     [Mgr_Park, Model (Call_OnShutdown ''shutdown-1''), Model (Send 0),
      Model (Call_OnShutdown ''shutdown-2''), Model Call_Go, Model (Return 0 None)]"

definition rt_registering :: rt_state where
  "rt_registering = \<lparr>base = registering, mgr_parked = False, blocked = []\<rparr>"

section \<open>Lemmas\<close>

subsection \<open>The fields after a cancellation and after a goroutine of the group returns\<close>

lemma cancel_fields [simp]:
  "wg (cancel e s) = wg s"
  "tasks (cancel e s) = tasks s"
  "bridge (cancel e s) = bridge s"
  "mgr (cancel e s) = mgr s"
  "funcs (cancel e s) = funcs s"
  "calls (cancel e s) = calls s"
  "log (cancel e s) = log s"
  "sigs (cancel e s) = sigs s"
  "sigC (cancel e s) = sigC s"
  "g_err (cancel e s) = g_err s"
  "parent_err (cancel e s) = parent_err s"
  "wait_ret (cancel e s) = wait_ret s"
  "ctx_err (cancel e s) = (if ctx_err s = None then Some e else ctx_err s)"
  by (auto simp add: cancel_def split: option.splits)

lemma group_done_fields [simp]:
  "wg (group_done r s) = wg s - 1"
  "tasks (group_done r s) = tasks s"
  "bridge (group_done r s) = bridge s"
  "mgr (group_done r s) = mgr s"
  "funcs (group_done r s) = funcs s"
  "calls (group_done r s) = calls s"
  "log (group_done r s) = log s"
  "sigs (group_done r s) = sigs s"
  "sigC (group_done r s) = sigC s"
  "parent_err (group_done r s) = parent_err s"
  "wait_ret (group_done r s) = wait_ret s"
  "g_err (group_done r s) = (if g_err s = None then r else g_err s)"
  "ctx_err (group_done r s) =
     (if r \<noteq> None \<and> g_err s = None \<and> ctx_err s = None then Some Canceled else ctx_err s)"
  by (auto simp add: group_done_def Let_def split: option.splits)

lemmas op_defs = Go_def group_Go_def OnShutdown_def Wait_def group_Wait_def

lemma exec_append:
  "exec (xs @ ys) s = (case exec xs s of None \<Rightarrow> None | Some s' \<Rightarrow> exec ys s')"
  by (induction xs arbitrary: s) (auto split: option.splits)

lemma exec_invariant:
  assumes step: "\<And>ev s s'. P s \<Longrightarrow> fire ev s = Some s' \<Longrightarrow> P s'"
  shows "P s \<Longrightarrow> exec evs s = Some s' \<Longrightarrow> P s'"
proof (induction evs arbitrary: s)
  case Nil
  then show ?case by simp
next
  case (Cons ev evs)
  then show ?case by (auto split: option.splits dest: step)
qed

subsection \<open>The count of running goroutines\<close>

lemma count_list_finish:
  "t < length xs \<Longrightarrow> xs ! t = Running \<Longrightarrow>
   count_list xs Running = Suc (count_list (xs[t := Finished r]) Running)"
proof (induction xs arbitrary: t)
  case Nil
  then show ?case by simp
next
  case (Cons x xs)
  then show ?case by (cases t) auto
qed

lemma running_0: "running s = 0 \<longleftrightarrow> all_returned s"
  by (auto simp: running_def all_returned_def count_list_0_iff)

lemma wg_fire:
  assumes "wg s = running s" and "fire ev s = Some s'"
  shows "wg s' = running s'"
proof (cases ev)
  case (Return t r)
  with assms show ?thesis
    by (auto simp: running_def dest: count_list_finish [where r = r] split: if_splits)
qed (use assms in \<open>auto simp: running_def op_defs
      split: if_splits option.splits mstate.splits bool.splits\<close>)

lemma wg_NewService: "wg (NewService p sg) = running (NewService p sg)"
  by (simp add: NewService_def running_def group_Go_def Let_def)

lemma wg_exec:
  assumes "exec evs (NewService p sg) = Some s"
  shows "wg s = running s"
  by (rule exec_invariant [where P = "\<lambda>s. wg s = running s", OF _ wg_NewService assms])
     (rule wg_fire)

subsection \<open>The slot and the context\<close>

lemma slot_fire:
  assumes "slot_inv s" "wg s = running s" and "fire ev s = Some s'"
  shows "slot_inv s'"
proof (cases ev)
  case Call_Wait
  with assms show ?thesis
    by (auto simp: slot_inv_def op_defs running_def split: if_splits)
qed (use assms in \<open>auto simp: slot_inv_def op_defs
      split: if_splits option.splits mstate.splits bool.splits\<close>)

lemma slot_NewService: "slot_inv (NewService p sg)"
  by (simp add: NewService_def slot_inv_def group_Go_def Let_def)

lemma slot_exec:
  assumes "exec evs (NewService p sg) = Some s"
  shows "slot_inv s"
proof -
  have "slot_inv s \<and> wg s = running s"
    by (rule exec_invariant [where P = "\<lambda>s. slot_inv s \<and> wg s = running s", OF _ _ assms])
       (auto intro: slot_fire wg_fire simp: wg_NewService slot_NewService)
  then show ?thesis ..
qed

lemma g_err_fire:
  "fire ev s = Some s' \<Longrightarrow>
   g_err s' = (if g_err s = None then returned ev s else g_err s)"
  by (cases ev) (auto simp: op_defs split: if_splits option.splits mstate.splits bool.splits)

lemma g_err_exec:
  "exec evs s = Some s' \<Longrightarrow>
   g_err s' = (if g_err s = None then first_failure evs s else g_err s)"
proof (induction evs arbitrary: s)
  case Nil
  then show ?case by (simp split: option.splits)
next
  case (Cons ev evs)
  then obtain s1 where s1: "fire ev s = Some s1" "exec evs s1 = Some s'"
    by (auto split: option.splits)
  from Cons.IH [OF s1(2)] g_err_fire [OF s1(1)] s1(1) show ?case
    by (auto split: option.splits)
qed

lemma ctx_err_fire:
  "fire ev s = Some s' \<Longrightarrow> ctx_err s = Some e \<Longrightarrow> ctx_err s' = Some e"
  by (cases ev) (auto simp: op_defs split: if_splits option.splits mstate.splits bool.splits)

lemma ctx_err_exec:
  assumes "exec evs s = Some s'" "ctx_err s = Some e"
  shows "ctx_err s' = Some e"
  by (rule exec_invariant [where P = "\<lambda>s. ctx_err s = Some e", OF _ assms(2,1)])
     (rule ctx_err_fire)

subsection \<open>The manager and its log\<close>

lemma by_runner_simps [simp]:
  "by_runner r [] = []"
  "by_runner r (l @ l') = by_runner r l @ by_runner r l'"
  "by_runner r [Begin r' h] = (if r' = r then [Begin r' h] else [])"
  "by_runner r [End r' h] = (if r' = r then [End r' h] else [])"
  by (simp_all add: by_runner_def)

lemma drain_seq_simps [simp]:
  "drain_seq [] = []"
  "drain_seq (fs @ [h]) = Begin Manager h # End Manager h # drain_seq fs"
  by (simp_all add: drain_seq_def)

lemma drain_seq_append: "drain_seq (fs @ gs) = drain_seq gs @ drain_seq fs"
  by (simp add: drain_seq_def)

lemma drain_seq_drop:
  assumes "n < length fs"
  shows "drain_seq (drop n fs) =
         drain_seq (drop (Suc n) fs) @ [Begin Manager (fs ! n), End Manager (fs ! n)]"
proof -
  have "drop n fs = [fs ! n] @ drop (Suc n) fs"
    using assms by (simp add: Cons_nth_drop_Suc)
  then show ?thesis
    by (simp only: drain_seq_append) (simp add: drain_seq_def)
qed

lemma mgr_fire:
  assumes "mgr_inv s" and "fire ev s = Some s'"
  shows "mgr_inv s'"
proof (cases ev)
  case Mgr_Return
  with assms obtain i where i: "mgr s = Draining i True" "0 \<le> i" "i < int (length (funcs s))"
    and s': "s' = s\<lparr>mgr := Draining (i - 1) False,
                     log := log s @ [End Manager (funcs s ! nat i)]\<rparr>"
    by (auto split: mstate.splits bool.splits if_splits)
  from i have n: "nat i < length (funcs s)" "nat (i - 1 + 1) = nat i" "nat (i + 1) = Suc (nat i)"
    by auto
  from assms(1) i have "by_runner Manager (log s) =
      drain_seq (drop (Suc (nat i)) (funcs s)) @ [Begin Manager (funcs s ! nat i)]"
    by (simp add: mgr_inv_def n)
  with i s' show ?thesis
    by (simp add: mgr_inv_def n drain_seq_drop [OF n(1)])
next
  case Mgr_Exit
  with assms show ?thesis
    by (auto simp: mgr_inv_def split: mstate.splits bool.splits if_splits)
next
  case Mgr_Done
  with assms show ?thesis
    by (auto simp: mgr_inv_def split: mstate.splits bool.splits if_splits)
next
  case Mgr_Call
  with assms show ?thesis
    by (auto simp: mgr_inv_def split: mstate.splits bool.splits if_splits)
qed (use assms in \<open>auto simp: mgr_inv_def op_defs split: if_splits option.splits\<close>)

lemma mgr_NewService: "mgr_inv (NewService p sg)"
  by (simp add: NewService_def mgr_inv_def group_Go_def Let_def)

lemma mgr_exec:
  assumes "exec evs (NewService p sg) = Some s"
  shows "mgr_inv s"
  by (rule exec_invariant [where P = mgr_inv, OF _ mgr_NewService assms]) (rule mgr_fire)

lemma manager_log_prefix:
  assumes "mgr_inv s"
  shows "prefix (manager_log (mgr s) (funcs s)) (drain_seq (funcs s))"
proof (cases "mgr s")
  case Accepting
  then show ?thesis by simp
next
  case (Draining i b)
  with assms have i: "- 1 \<le> i" "i < int (length (funcs s))" "b \<longrightarrow> 0 \<le> i"
    by (simp_all add: mgr_inv_def)
  let ?n = "nat (i + 1)"
  have split: "drain_seq (funcs s) = drain_seq (drop ?n (funcs s)) @ drain_seq (take ?n (funcs s))"
    using drain_seq_append [of "take ?n (funcs s)" "drop ?n (funcs s)"] by simp
  show ?thesis
  proof (cases b)
    case False
    with Draining split show ?thesis by simp
  next
    case True
    with i have n: "?n = Suc (nat i)" "nat i < length (funcs s)" by auto
    then have "take ?n (funcs s) = take (nat i) (funcs s) @ [funcs s ! nat i]"
      by (simp add: take_Suc_conv_app_nth)
    then have "drain_seq (take ?n (funcs s)) =
        Begin Manager (funcs s ! nat i) # End Manager (funcs s ! nat i)
          # drain_seq (take (nat i) (funcs s))"
      by simp
    with True Draining split show ?thesis by simp
  qed
next
  case Closed
  then show ?thesis by simp
qed

subsection \<open>The calls of OnShutdown\<close>

lemma calls_fire:
  assumes "calls_inv s" and "fire ev s = Some s'"
  shows "calls_inv s'"
proof (cases ev)
  case (Call_OnShutdown f)
  with assms show ?thesis
    by (auto simp: calls_inv_def op_defs nth_append)
next
  case (Send c)
  with assms show ?thesis
    by (auto simp: calls_inv_def nth_list_update split: if_splits)
next
  case (Done_Call c)
  with assms show ?thesis
    by (auto simp: calls_inv_def nth_list_update split: if_splits)
next
  case (Done_Return c)
  with assms show ?thesis
    by (auto simp: calls_inv_def nth_list_update split: if_splits)
qed (use assms in \<open>auto simp: calls_inv_def op_defs
       split: if_splits option.splits mstate.splits bool.splits\<close>)

lemma calls_NewService: "calls_inv (NewService p sg)"
  by (simp add: NewService_def calls_inv_def group_Go_def Let_def)

lemma calls_exec:
  assumes "exec evs (NewService p sg) = Some s"
  shows "calls_inv s"
  by (rule exec_invariant [where P = calls_inv, OF _ calls_NewService assms]) (rule calls_fire)

subsection \<open>The queue\<close>

lemma filter_update_other:
  "c < length cs \<Longrightarrow> \<not> P (cs ! c) \<Longrightarrow> \<not> P x \<Longrightarrow> filter P (cs[c := x]) = filter P cs"
proof (induction cs arbitrary: c)
  case Nil
  then show ?case by simp
next
  case (Cons a cs)
  then show ?case by (cases c) auto
qed

lemma mset_filter_update_new:
  "c < length cs \<Longrightarrow> \<not> P (cs ! c) \<Longrightarrow> P x \<Longrightarrow>
   mset (filter P (cs[c := x])) = add_mset x (mset (filter P cs))"
proof (induction cs arbitrary: c)
  case Nil
  then show ?case by simp
next
  case (Cons a cs)
  then show ?case by (cases c) auto
qed

lemma sent_hooks_Send:
  assumes "c < length (calls s)" "snd (calls s ! c) = AtSelect"
  shows "mset (sent_hooks (s\<lparr>funcs := fs, calls := (calls s)[c := (f, Sent)]\<rparr>)) =
         add_mset f (mset (sent_hooks s))"
proof -
  have "mset (filter (\<lambda>c. snd c = Sent) ((calls s)[c := (f, Sent)])) =
        add_mset (f, Sent) (mset (filter (\<lambda>c. snd c = Sent) (calls s)))"
    using assms by (intro mset_filter_update_new) auto
  then have "image_mset fst (mset (filter (\<lambda>c. snd c = Sent) ((calls s)[c := (f, Sent)]))) =
        add_mset f (image_mset fst (mset (filter (\<lambda>c. snd c = Sent) (calls s))))"
    by simp
  then show ?thesis by (simp add: sent_hooks_def)
qed

lemma queue_fire:
  assumes "queue_inv s" and "fire ev s = Some s'"
  shows "queue_inv s'"
proof (cases ev)
  case (Call_OnShutdown f)
  with assms show ?thesis
    by (auto simp: queue_inv_def op_defs sent_hooks_def)
next
  case (Send c)
  with assms have c: "c < length (calls s)" "snd (calls s ! c) = AtSelect"
    and s': "s' = s\<lparr>funcs := funcs s @ [fst (calls s ! c)],
                     calls := (calls s)[c := (fst (calls s ! c), Sent)]\<rparr>"
    by (auto split: if_splits)
  from assms(1) have "\<forall>x \<in> set (calls s'). ctx_err s = None \<longrightarrow> snd x = AtSelect \<or> snd x = Sent"
    unfolding s' using set_update_subset_insert [of "calls s" c "(fst (calls s ! c), Sent)"]
    by (auto simp: queue_inv_def)
  with assms(1) sent_hooks_Send [OF c] show ?thesis
    by (auto simp: queue_inv_def s')
next
  case (Done_Call c)
  with assms have "sent_hooks s' = sent_hooks s"
    by (auto simp: sent_hooks_def filter_update_other split: if_splits)
  with assms Done_Call show ?thesis
    by (auto simp: queue_inv_def split: if_splits)
next
  case (Done_Return c)
  with assms have same: "sent_hooks s' = sent_hooks s"
    by (auto simp: sent_hooks_def filter_update_other split: if_splits)
  from assms Done_Return have c: "c < length (calls s)" "snd (calls s ! c) = Calling"
    by (auto split: if_splits)
  have "ctx_err s \<noteq> None"
  proof
    assume "ctx_err s = None"
    with assms(1) have "\<forall>x \<in> set (calls s). snd x = AtSelect \<or> snd x = Sent"
      by (simp add: queue_inv_def)
    then have "snd (calls s ! c) = AtSelect \<or> snd (calls s ! c) = Sent"
      by (rule bspec) (simp add: c)
    with c(2) show False by simp
  qed
  with same show ?thesis using assms Done_Return
    by (auto simp: queue_inv_def split: if_splits)
qed (use assms in \<open>auto simp: queue_inv_def op_defs sent_hooks_def
       split: if_splits option.splits mstate.splits bool.splits\<close>)

lemma queue_NewService: "queue_inv (NewService p sg)"
  by (simp add: NewService_def queue_inv_def group_Go_def Let_def sent_hooks_def)

lemma queue_exec:
  assumes "exec evs (NewService p sg) = Some s"
  shows "queue_inv s"
  by (rule exec_invariant [where P = queue_inv, OF _ queue_NewService assms]) (rule queue_fire)

lemma funcs_fire:
  assumes "fire ev s = Some s'"
  shows "if ctx_err s = None
         then funcs s' = funcs s \<or> (\<exists>c. ev = Send c \<and> funcs s' = funcs s @ [fst (calls s ! c)])
         else funcs s' = funcs s"
  using assms
  by (cases ev) (auto simp: op_defs split: if_splits option.splits mstate.splits bool.splits)

lemma registered_or_ready:
  assumes "exec evs (NewService p sg) = Some s" and "ctx_err s = None"
    and c: "c < length (calls s)"
  shows "(snd (calls s ! c) = Sent \<and> fst (calls s ! c) \<in> set (funcs s)) \<or>
         (snd (calls s ! c) = AtSelect \<and>
          (\<exists>s'. fire (Send c) s = Some s' \<and> funcs s' = funcs s @ [fst (calls s ! c)]
                \<and> log s' = []))"
proof -
  from queue_exec [OF assms(1)] assms(2)
  have q: "mset (funcs s) = mset (sent_hooks s)" "log s = []" "mgr s = Accepting"
    "\<forall>x \<in> set (calls s). snd x = AtSelect \<or> snd x = Sent"
    by (simp_all add: queue_inv_def)
  from c have mem: "calls s ! c \<in> set (calls s)" by simp
  with q(4) have "snd (calls s ! c) = AtSelect \<or> snd (calls s ! c) = Sent" by blast
  then show ?thesis
  proof
    assume "snd (calls s ! c) = AtSelect"
    with c q assms(2) show ?thesis by simp
  next
    assume sent: "snd (calls s ! c) = Sent"
    with mem have "fst (calls s ! c) \<in> set (sent_hooks s)"
      by (force simp: sent_hooks_def)
    then have "fst (calls s ! c) \<in># mset (funcs s)"
      by (simp add: q(1))
    with sent show ?thesis by simp
  qed
qed

subsection \<open>The signal goroutine\<close>

lemma bridge_fire:
  assumes "bridge_inv sg s" and "fire ev s = Some s'"
  shows "bridge_inv sg s'"
proof (cases ev)
  case Bridge_Done
  with assms(2) obtain e where "bridge s = Some Running" "ctx_err s = Some e"
    and "s' = group_done (Some e) (s\<lparr>bridge := Some (Finished (Some e))\<rparr>)"
    by (auto split: if_splits)
  with assms(1) show ?thesis
    by (auto simp: bridge_inv_def)
qed (use assms in \<open>auto simp: bridge_inv_def op_defs
       split: if_splits option.splits mstate.splits bool.splits\<close>)

lemma bridge_NewService: "bridge_inv sg (NewService p sg)"
  by (simp add: NewService_def bridge_inv_def group_Go_def Let_def)

lemma bridge_exec:
  assumes "exec evs (NewService p sg) = Some s"
  shows "bridge_inv sg s"
  by (rule exec_invariant [where P = "bridge_inv sg", OF _ bridge_NewService assms])
     (rule bridge_fire)

subsection \<open>Calls on a cancelled context\<close>

lemma late_fire:
  assumes "late_inv c f q s" and "fire ev s = Some s'"
  shows "late_inv c f q s'"
  using assms
  by (cases ev)
     (auto simp: late_inv_def op_defs nth_append nth_list_update
           split: if_splits option.splits mstate.splits bool.splits)

lemma late_exec:
  assumes "exec evs s = Some s'" and "late_inv c f q s"
  shows "late_inv c f q s'"
  by (rule exec_invariant [where P = "late_inv c f q", OF _ assms(2,1)]) (rule late_fire)

lemma late_OnShutdown:
  "ctx_err s \<noteq> None \<Longrightarrow> late_inv (length (calls s)) f (funcs s) (OnShutdown f s)"
  by (simp add: late_inv_def OnShutdown_def)

lemma late_call:
  assumes "exec evs (NewService p sg) = Some s"
    and "ctx_err s \<noteq> None"
    and "exec evs' (OnShutdown f s) = Some s'"
    and "c = length (calls s)"
  shows "late_inv c f (funcs s) s' \<and>
         by_runner (Caller c) (log s') = caller_log c f (snd (calls s' ! c))"
proof -
  from late_exec [OF assms(3) late_OnShutdown [OF assms(2)]] assms(4)
  have late: "late_inv c f (funcs s) s'" by simp
  have "exec (evs @ Call_OnShutdown f # evs') (NewService p sg) = Some s'"
    using assms(1,3) by (simp add: exec_append)
  from calls_exec [OF this] late
  have "by_runner (Caller c) (log s') = caller_log c f (snd (calls s' ! c))"
    by (simp add: calls_inv_def late_inv_def)
  with late show ?thesis ..
qed

subsection \<open>A service nothing has ended\<close>

lemma idle_fire:
  assumes "idle s" "\<not> external ev" "\<not> task_failure ev" and "fire ev s = Some s'"
  shows "idle s'"
proof (cases ev)
  case (Return t r)
  with assms(3) have "r = None" by (cases r) auto
  with Return assms wg_fire [of s ev s'] show ?thesis
    by (auto simp: idle_def split: if_splits)
next
  case Call_Wait
  with assms show ?thesis
    by (auto simp: idle_def op_defs running_def split: if_splits)
next
  case Call_Go
  with assms wg_fire [of s ev s'] show ?thesis
    by (auto simp: idle_def op_defs)
qed (use assms in \<open>auto simp: idle_def op_defs running_def
       split: if_splits option.splits mstate.splits bool.splits\<close>)

lemma idle_exec:
  "idle s \<Longrightarrow> \<forall>ev \<in> set evs. \<not> external ev \<and> \<not> task_failure ev \<Longrightarrow>
   exec evs s = Some s' \<Longrightarrow> idle s'"
proof (induction evs arbitrary: s)
  case Nil
  then show ?case by simp
next
  case (Cons ev evs)
  then show ?case by (auto split: option.splits dest: idle_fire)
qed

lemma idle_NewService: "idle (NewService None sg)"
  by (simp add: idle_def NewService_def group_Go_def running_def Let_def)

lemma idle_blocks: "idle s \<Longrightarrow> Wait s = None"
  by (simp add: idle_def op_defs running_def)

subsection \<open>The drain\<close>

lemma drain_loop:
  "mgr s = Draining (int n - 1) False \<Longrightarrow> n \<le> length (funcs s) \<Longrightarrow>
   \<exists>s'. exec (concat (replicate n [Mgr_Call, Mgr_Return])) s = Some s' \<and>
        s' = s\<lparr>mgr := Draining (- 1) False, log := log s @ drain_seq (take n (funcs s))\<rparr>"
proof (induction n arbitrary: s)
  case 0
  then show ?case by simp
next
  case (Suc n)
  let ?h = "funcs s ! n"
  let ?s2 = "s\<lparr>mgr := Draining (int n - 1) False,
               log := log s @ [Begin Manager ?h, End Manager ?h]\<rparr>"
  from Suc.prems have step: "exec [Mgr_Call, Mgr_Return] s = Some ?s2"
    by simp
  have "mgr ?s2 = Draining (int n - 1) False" "n \<le> length (funcs ?s2)"
    using Suc.prems by simp_all
  from Suc.IH [OF this] obtain s' where
    s': "exec (concat (replicate n [Mgr_Call, Mgr_Return])) ?s2 = Some s'"
        "s' = ?s2\<lparr>mgr := Draining (- 1) False, log := log ?s2 @ drain_seq (take n (funcs ?s2))\<rparr>"
    by blast
  from Suc.prems have "take (Suc n) (funcs s) = take n (funcs s) @ [?h]"
    by (simp add: take_Suc_conv_app_nth)
  then have "drain_seq (take (Suc n) (funcs s)) =
       Begin Manager ?h # End Manager ?h # drain_seq (take n (funcs s))"
    by simp
  with s' step show ?case
    using exec_append [of "[Mgr_Call, Mgr_Return]" "concat (replicate n [Mgr_Call, Mgr_Return])" s]
    by simp
qed

lemma drain_run:
  assumes "mgr s = Accepting" "ctx_err s \<noteq> None"
  shows "\<exists>s'. exec (drain_events (length (funcs s))) s = Some s' \<and> mgr s' = Closed \<and>
              funcs s' = funcs s \<and> log s' = log s @ drain_seq (funcs s)"
proof -
  let ?n = "length (funcs s)"
  let ?s1 = "s\<lparr>mgr := Draining (int ?n - 1) False\<rparr>"
  have "mgr ?s1 = Draining (int ?n - 1) False" "?n \<le> length (funcs ?s1)" by simp_all
  from drain_loop [OF this] have
    2: "exec (concat (replicate ?n [Mgr_Call, Mgr_Return])) ?s1 =
          Some (?s1\<lparr>mgr := Draining (- 1) False, log := log ?s1 @ drain_seq (take ?n (funcs ?s1))\<rparr>)"
    by blast
  show ?thesis
    unfolding drain_events_def using assms
    by (simp add: 2 exec_append)
qed

subsection \<open>The model and the run-time level\<close>

lemma park_fire:
  assumes "park_inv r" "rt_fire e r = Some r'"
  shows "park_inv r'"
proof (cases e)
  case (Model ev)
  show ?thesis
  proof (cases ev)
    case (Send c)
    with Model assms show ?thesis
      by (auto simp: park_inv_def split: if_splits)
  qed (use Model assms in \<open>auto simp: park_inv_def wake_def split: option.splits if_splits\<close>)
qed (use assms in \<open>auto simp: park_inv_def split: if_splits\<close>)

lemma rt_fire_model:
  assumes "park_inv r" "rt_fire e r = Some r'"
  shows "case e of Model ev \<Rightarrow> fire ev (base r) = Some (base r') | _ \<Rightarrow> base r' = base r"
proof (cases e)
  case (Model ev)
  show ?thesis
  proof (cases ev)
    case (Send c)
    with Model assms show ?thesis
      by (auto simp: park_inv_def split: if_splits)
  qed (use Model assms in \<open>auto simp: wake_def split: option.splits if_splits\<close>)
qed (use assms in \<open>auto split: if_splits\<close>)

lemma rt_exec_model:
  "park_inv r \<Longrightarrow> rt_exec es r = Some r' \<Longrightarrow> exec (model_events es) (base r) = Some (base r')"
proof (induction es arbitrary: r)
  case Nil
  then show ?case by simp
next
  case (Cons e es)
  then obtain r1 where r1: "rt_fire e r = Some r1" "rt_exec es r1 = Some r'"
    by (auto split: option.splits)
  from park_fire [OF Cons.prems(1) r1(1)] Cons.IH r1(2)
  have "exec (model_events es) (base r1) = Some (base r')" by blast
  with rt_fire_model [OF Cons.prems(1) r1(1)] show ?case
    by (cases e) auto
qed

lemma rt_exec_append:
  "rt_exec (xs @ ys) r = (case rt_exec xs r of None \<Rightarrow> None | Some r' \<Rightarrow> rt_exec ys r')"
  by (induction xs arbitrary: r) (auto split: option.splits)

lemma park_exec:
  "park_inv r \<Longrightarrow> rt_exec es r = Some r' \<Longrightarrow> park_inv r'"
proof (induction es arbitrary: r)
  case Nil
  then show ?case by simp
next
  case (Cons e es)
  then show ?case by (auto split: option.splits dest: park_fire)
qed

lemma model_fire_rt:
  assumes "park_inv r" "fire ev (base r) = Some s'"
  shows "\<exists>es r'. model_events es = [ev] \<and> rt_exec es r = Some r' \<and> base r' = s'"
proof (cases ev)
  case (Send c)
  with assms(2) have g: "c < length (calls (base r))" "snd (calls (base r) ! c) = AtSelect"
    "mgr (base r) = Accepting" "ctx_err (base r) = None"
    and s': "s' = (base r)\<lparr>funcs := funcs (base r) @ [fst (calls (base r) ! c)],
                     calls := (calls (base r))[c := (fst (calls (base r) ! c), Sent)]\<rparr>"
    by (auto split: if_splits)
  consider "mgr_parked r \<or> c \<in> set (blocked r)"
    | "\<not> mgr_parked r" "c \<notin> set (blocked r)" "blocked r = []"
    | "\<not> mgr_parked r" "c \<notin> set (blocked r)" "blocked r \<noteq> []"
    by blast
  then show ?thesis
  proof cases
    case 1
    with g s' Send have "model_events [Model ev] = [ev]"
      "\<exists>r'. rt_exec [Model ev] r = Some r' \<and> base r' = s'"
      by auto
    then show ?thesis by blast
  next
    case 2
    with g s' Send have "model_events [Mgr_Park, Model ev] = [ev]"
      "\<exists>r'. rt_exec [Mgr_Park, Model ev] r = Some r' \<and> base r' = s'"
      by auto
    then show ?thesis by blast
  next
    case 3
    with g s' Send have "model_events [Call_Park c, Model ev] = [ev]"
      "\<exists>r'. rt_exec [Call_Park c, Model ev] r = Some r' \<and> base r' = s'"
      by auto
    then show ?thesis by blast
  qed
qed (use assms in \<open>auto simp: wake_def intro!: exI [where x = "[Model ev]"]\<close>)

lemma model_exec_rt:
  "park_inv r \<Longrightarrow> exec evs (base r) = Some s' \<Longrightarrow>
   \<exists>es r'. model_events es = evs \<and> rt_exec es r = Some r' \<and> base r' = s'"
proof (induction evs arbitrary: r)
  case Nil
  have "model_events [] = [] \<and> rt_exec [] r = Some r \<and> base r = s'"
    using Nil by simp
  then show ?case by blast
next
  case (Cons ev evs)
  then obtain s1 where s1: "fire ev (base r) = Some s1" "exec evs s1 = Some s'"
    by (auto split: option.splits)
  from model_fire_rt [OF Cons.prems(1) s1(1)] obtain es1 r1 where
    1: "model_events es1 = [ev]" "rt_exec es1 r = Some r1" "base r1 = s1"
    by blast
  from park_exec [OF Cons.prems(1) 1(2)] have "park_inv r1" .
  from Cons.IH [OF this] s1(2) 1(3) obtain es2 r' where
    2: "model_events es2 = evs" "rt_exec es2 r1 = Some r'" "base r' = s'"
    by blast
  have "model_events (es1 @ es2) = model_events es1 @ model_events es2" for es1 es2
    by (induction es1 rule: model_events.induct) auto
  with 1 2 have "model_events (es1 @ es2) = ev # evs"
    "rt_exec (es1 @ es2) r = Some r'" "base r' = s'"
    by (simp_all add: rt_exec_append)
  then show ?case by blast
qed

lemma park_NewService: "park_inv (rt_NewService p sg)"
  by (simp add: park_inv_def rt_NewService_def)

lemma rt_fire_Model:
  "\<forall>c. ev \<noteq> Send c \<Longrightarrow>
   rt_fire (Model ev) r =
     (case fire ev (base r) of None \<Rightarrow> None | Some s' \<Rightarrow> Some (wake (r\<lparr>base := s'\<rparr>)))"
  by (cases ev) auto

lemma base_wake [simp]: "base (wake r) = base r"
  by (simp add: wake_def)

lemma rt_exec_Model:
  "\<forall>c. Send c \<notin> set evs \<Longrightarrow> exec evs (base r) = Some s' \<Longrightarrow>
   \<exists>r'. rt_exec (map Model evs) r = Some r' \<and> base r' = s'"
proof (induction evs arbitrary: r)
  case Nil
  then show ?case by simp
next
  case (Cons ev evs)
  then obtain s1 where s1: "fire ev (base r) = Some s1" "exec evs s1 = Some s'"
    by (auto split: option.splits)
  from Cons.prems(1) have "\<forall>c. ev \<noteq> Send c" by auto
  with s1(1) have 1: "rt_fire (Model ev) r = Some (wake (r\<lparr>base := s1\<rparr>))"
    by (simp add: rt_fire_Model)
  from Cons.prems(1) have "\<forall>c. Send c \<notin> set evs" by auto
  from Cons.IH [OF this, of "wake (r\<lparr>base := s1\<rparr>)"] s1(2)
  obtain r' where "rt_exec (map Model evs) (wake (r\<lparr>base := s1\<rparr>)) = Some r'" "base r' = s'"
    by auto
  with 1 show ?case by simp
qed

lemma rt_reach_model:
  assumes "rt_exec es (rt_NewService p sg) = Some r"
  shows "exec (model_events es) (NewService p sg) = Some (base r) \<and> park_inv r"
  using rt_exec_model [OF park_NewService assms] park_exec [OF park_NewService assms]
  by (simp add: rt_NewService_def)

lemma funcs_rt_fire:
  assumes "park_inv r" "rt_fire e r = Some r'"
  shows "if ctx_err (base r) = None
         then funcs (base r') = funcs (base r) \<or>
              (\<exists>c. e = Model (Send c) \<and>
                   funcs (base r') = funcs (base r) @ [fst (calls (base r) ! c)])
         else funcs (base r') = funcs (base r)"
proof (cases e)
  case (Model ev)
  with rt_fire_model [OF assms] have "fire ev (base r) = Some (base r')" by simp
  from funcs_fire [OF this] Model show ?thesis by auto
qed (use rt_fire_model [OF assms] in auto)

subsection \<open>The example executions\<close>

lemmas run_defs = NewService_def op_defs group_done_def cancel_def Let_def
  SIGUSR1_def SIGUSR2_def test_error_def

lemma service_error_exec:
  "exec service_error_run (NewService None [SIGUSR2]) = Some service_error_joined"
  by (simp add: service_error_run_def service_error_joined_def run_defs)

lemma on_shutdown_exec:
  "exec on_shutdown_run (NewService None []) = Some on_shutdown_joined"
  by (simp add: on_shutdown_run_def on_shutdown_joined_def run_defs)

lemma registering_exec:
  "exec registering_run (NewService None []) = Some registering"
  by (simp add: registering_run_def registering_def run_defs)

lemma signalled_exec:
  "exec [Call_Go, Deliver SIGUSR1] (NewService None [SIGUSR1]) = Some signalled"
  by (simp add: signalled_def run_defs)

lemmas rt_run_defs = run_defs rt_NewService_def wake_def

lemma rt_on_shutdown_exec:
  "rt_exec rt_on_shutdown_run (rt_NewService None []) = Some rt_on_shutdown_joined"
  by (simp add: rt_on_shutdown_run_def rt_on_shutdown_joined_def on_shutdown_joined_def
        rt_run_defs)

lemma cancelled_exec: "rt_exec cancelled_run (rt_NewService None []) = Some cancelled"
  by (simp add: cancelled_run_def cancelled_def rt_run_defs)

lemma late_exec_done:
  "rt_exec (Model (Call_OnShutdown ''shutdown-3'') # late_run) cancelled = Some late_done"
  by (simp add: late_run_def cancelled_def late_done_def rt_run_defs)

lemma rt_registering_exec:
  "rt_exec rt_registering_run (rt_NewService None []) = Some rt_registering"
  by (simp add: rt_registering_run_def rt_registering_def registering_def rt_run_defs)

section \<open>The error Wait returns\<close>

text \<open>
  The properties of \<^verbatim>\<open>Wait\<close>, of the slot and of the signal goroutine do not depend on
  who is blocked on \<^verbatim>\<open>shutdownC\<close>; they are stated on the executions of the model, which
  by \<open>rt_exec_model\<close> and \<open>model_exec_rt\<close> are those at run time.  The properties of the
  hooks are stated on the executions at run time.
\<close>

text \<open>
  C1, as the specification states it: whenever exactly one of the tasks started by
  \<^verbatim>\<open>Go\<close> returns a non-nil error \<open>E\<close>, \<^verbatim>\<open>Wait\<close> returns \<open>E\<close>.  Two executions in which
  it does not.  In the first the parent context is cancelled before the only task returns
  "test error": the hook manager returns \<^verbatim>\<open>ctx.Err()\<close> first, and \<^verbatim>\<open>Wait\<close> returns
  \<^verbatim>\<open>context.Canceled\<close>.  In the second SIGUSR1 arrives before the task fails, and
  \<^verbatim>\<open>Wait\<close> returns the SignalError.
\<close>

theorem Wait_not_task_error_counterexample:
  "map_option wait_ret
     (exec [Call_Go, ParentCancel Canceled, Mgr_Done, Mgr_Exit,
            Return 0 (Some test_error), Call_Wait] (NewService None []))
     = Some (Some (Some Canceled))
   \<and> Canceled \<noteq> test_error
   \<and> map_option wait_ret
     (exec [Call_Go, Deliver SIGUSR1, Bridge_Sig, Return 0 (Some test_error),
            Mgr_Done, Mgr_Exit, Call_Wait] (NewService None [SIGUSR1]))
     = Some (Some (Some (SignalErr \<lparr>Signal = SIGUSR1\<rparr>)))
   \<and> SignalErr \<lparr>Signal = SIGUSR1\<rparr> \<noteq> test_error"
  by (simp add: run_defs)

text \<open>
  C1, amended: in an execution from a parent context that is not cancelled, let task \<open>t\<close>
  return the non-nil error \<open>E\<close>, let no other task return a non-nil error, and let the
  parent not be cancelled and no signal be delivered before task \<open>t\<close> returns.  Then every
  \<^verbatim>\<open>Wait\<close> that has returned has returned \<open>E\<close>, and a \<^verbatim>\<open>Wait\<close> that returns now returns
  \<open>E\<close>, when every task, the signal goroutine if there is one, and the hook manager have
  returned.
\<close>

theorem Wait_returns_only_failure:
  assumes "exec (pre @ Return t (Some E) # post) (NewService None sg) = Some s"
    and "\<forall>ev \<in> set pre. \<not> external ev"
    and "\<forall>ev \<in> set (pre @ post). \<not> task_failure ev"
  shows "(\<forall>r. wait_ret s = Some r \<longrightarrow> r = Some E) \<and>
         (\<forall>s'. Wait s = Some s' \<longrightarrow> wait_ret s' = Some (Some E) \<and> all_returned s)"
proof -
  from assms(1) obtain s1 s2 where
    s1: "exec pre (NewService None sg) = Some s1" and
    s2: "fire (Return t (Some E)) s1 = Some s2" and
    s: "exec post s2 = Some s"
    by (auto simp: exec_append split: option.splits)
  from assms(2,3) have "\<forall>ev \<in> set pre. \<not> external ev \<and> \<not> task_failure ev"
    by simp
  from idle_exec [OF idle_NewService this s1] have "g_err s1 = None"
    by (simp add: idle_def)
  with g_err_fire [OF s2] have "g_err s2 = Some E" by simp
  with g_err_exec [OF s] have E: "g_err s = Some E" by simp
  from slot_exec [OF assms(1)] E have 1: "\<forall>r. wait_ret s = Some r \<longrightarrow> r = Some E"
    by (simp add: slot_inv_def)
  from wg_exec [OF assms(1)] have "\<forall>s'. Wait s = Some s' \<longrightarrow> all_returned s"
    by (auto simp: op_defs running_0 [symmetric] split: if_splits)
  moreover from E have "\<forall>s'. Wait s = Some s' \<longrightarrow> wait_ret s' = Some (Some E)"
    by (auto simp: op_defs split: if_splits)
  ultimately show ?thesis using 1 by blast
qed

text \<open>
  An instance of the amended C1: TestServiceError, with one task that returns
  "test error", then the signal goroutine and the manager returning, and the join.
\<close>

theorem Wait_returns_only_failure_witness:
  "exec ([Call_Go] @ Return 0 (Some test_error) # [Bridge_Done, Mgr_Done, Mgr_Exit])
     (NewService None [SIGUSR2]) = Some service_error_joined
   \<and> Wait service_error_joined
       = Some (service_error_joined\<lparr>wait_ret := Some (Some test_error)\<rparr>)
   \<and> wait_ret (service_error_joined\<lparr>wait_ret := Some (Some test_error)\<rparr>)
       = Some (Some test_error)
   \<and> all_returned service_error_joined
   \<and> \<not> external Call_Go
   \<and> list_all (\<lambda>ev. \<not> task_failure ev) ([Call_Go] @ [Bridge_Done, Mgr_Done, Mgr_Exit])"
proof -
  have run: "exec ([Call_Go] @ Return 0 (Some test_error) # [Bridge_Done, Mgr_Done, Mgr_Exit])
     (NewService None [SIGUSR2]) = Some service_error_joined"
    using service_error_exec by (simp add: service_error_run_def)
  have quiet: "\<forall>ev \<in> set [Call_Go]. \<not> external ev"
    "\<forall>ev \<in> set ([Call_Go] @ [Bridge_Done, Mgr_Done, Mgr_Exit]). \<not> task_failure ev"
    by simp_all
  have join: "Wait service_error_joined
       = Some (service_error_joined\<lparr>wait_ret := Some (Some test_error)\<rparr>)"
    by (simp add: service_error_joined_def op_defs)
  from Wait_returns_only_failure [OF run quiet] join
  have "wait_ret (service_error_joined\<lparr>wait_ret := Some (Some test_error)\<rparr>)
       = Some (Some test_error) \<and> all_returned service_error_joined"
    by blast
  with run join show ?thesis by simp
qed

text \<open>
  C2.  In every execution the slot of the group holds the error of the first goroutine, in
  completion order, that returned a non-nil error; once it holds an error, whatever happens
  later leaves it as it is; and \<^verbatim>\<open>Wait\<close> returns exactly the slot.
\<close>

theorem first_failure_retained:
  assumes "exec evs (NewService p sg) = Some s" and "exec evs' s = Some s'"
  shows "g_err s = first_failure evs (NewService p sg) \<and>
         (g_err s \<noteq> None \<longrightarrow> g_err s' = g_err s) \<and>
         (\<forall>r. wait_ret s = Some r \<longrightarrow> r = first_failure evs (NewService p sg)) \<and>
         (\<forall>s2. Wait s = Some s2 \<longrightarrow> wait_ret s2 = Some (first_failure evs (NewService p sg)))"
proof -
  have "g_err (NewService p sg) = None"
    by (simp add: NewService_def group_Go_def Let_def)
  with g_err_exec [OF assms(1)] have 1: "g_err s = first_failure evs (NewService p sg)"
    by simp
  from g_err_exec [OF assms(2)] have 2: "g_err s \<noteq> None \<longrightarrow> g_err s' = g_err s"
    by simp
  from slot_exec [OF assms(1)] have 3: "\<forall>r. wait_ret s = Some r \<longrightarrow> r = g_err s"
    by (simp add: slot_inv_def)
  have 4: "\<forall>s2. Wait s = Some s2 \<longrightarrow> wait_ret s2 = Some (g_err s)"
    by (auto simp: op_defs split: if_splits)
  from 1 2 3 4 show ?thesis by simp
qed

text \<open>
  An instance of C2: after TestServiceError's task has failed and all have returned, a
  second task that fails with "late" changes nothing, and \<^verbatim>\<open>Wait\<close> returns "test error".
\<close>

theorem first_failure_retained_witness:
  "exec service_error_run (NewService None [SIGUSR2]) = Some service_error_joined
   \<and> exec [Call_Go, Return 1 (Some (ErrorString ''late'')), Call_Wait] service_error_joined
       = Some (service_error_joined
                 \<lparr>tasks := [Finished (Some test_error), Finished (Some (ErrorString ''late''))],
                  wait_ret := Some (Some test_error)\<rparr>)
   \<and> first_failure service_error_run (NewService None [SIGUSR2]) = Some test_error
   \<and> g_err service_error_joined = Some test_error
   \<and> g_err (service_error_joined
                 \<lparr>tasks := [Finished (Some test_error), Finished (Some (ErrorString ''late''))],
                  wait_ret := Some (Some test_error)\<rparr>) = Some test_error"
proof -
  have more: "exec [Call_Go, Return 1 (Some (ErrorString ''late'')), Call_Wait] service_error_joined
       = Some (service_error_joined
                 \<lparr>tasks := [Finished (Some test_error), Finished (Some (ErrorString ''late''))],
                  wait_ret := Some (Some test_error)\<rparr>)"
    by (simp add: service_error_joined_def run_defs)
  have g: "g_err service_error_joined = Some test_error"
    by (simp add: service_error_joined_def)
  from first_failure_retained [OF service_error_exec more] service_error_exec more g
  show ?thesis by simp
qed

text \<open>
  C5.  \<^verbatim>\<open>Wait\<close> can return exactly when every goroutine of the group has returned: every
  task, the signal goroutine when it was started, and the hook manager.  It then returns the
  slot, which is the error of the first goroutine that failed and nil when none has; and the
  slot is nil as long as the context is not cancelled.
\<close>

theorem Wait_joins_all:
  assumes "exec evs (NewService p sg) = Some s"
  shows "(Wait s \<noteq> None \<longleftrightarrow> all_returned s) \<and>
         (\<forall>s'. Wait s = Some s' \<longrightarrow> wait_ret s' = Some (first_failure evs (NewService p sg))) \<and>
         g_err s = first_failure evs (NewService p sg) \<and>
         (ctx_err s = None \<longrightarrow> g_err s = None)"
proof -
  from wg_exec [OF assms] have 1: "Wait s \<noteq> None \<longleftrightarrow> all_returned s"
    by (auto simp: op_defs running_0 [symmetric] split: if_splits)
  have "g_err (NewService p sg) = None"
    by (simp add: NewService_def group_Go_def Let_def)
  with g_err_exec [OF assms] have 2: "g_err s = first_failure evs (NewService p sg)"
    by simp
  then have 3: "\<forall>s'. Wait s = Some s' \<longrightarrow> wait_ret s' = Some (first_failure evs (NewService p sg))"
    by (auto simp: op_defs split: if_splits)
  from slot_exec [OF assms] have 4: "ctx_err s = None \<longrightarrow> g_err s = None"
    by (auto simp: slot_inv_def)
  from 1 2 3 4 show ?thesis by simp
qed

text \<open>
  Instances of C5: the join of TestServiceError, and a service that is only registering
  hooks, whose context is not cancelled and whose slot is nil.
\<close>

theorem Wait_joins_all_witness:
  "exec service_error_run (NewService None [SIGUSR2]) = Some service_error_joined
   \<and> Wait service_error_joined
       = Some (service_error_joined\<lparr>wait_ret := Some (Some test_error)\<rparr>)
   \<and> all_returned service_error_joined
   \<and> first_failure service_error_run (NewService None [SIGUSR2]) = Some test_error
   \<and> exec registering_run (NewService None []) = Some registering
   \<and> ctx_err registering = None \<and> g_err registering = None"
proof -
  have join: "Wait service_error_joined
       = Some (service_error_joined\<lparr>wait_ret := Some (Some test_error)\<rparr>)"
    by (simp add: service_error_joined_def op_defs)
  then have "Wait service_error_joined \<noteq> None" by simp
  with Wait_joins_all [OF service_error_exec]
  have ar: "all_returned service_error_joined" by blast
  have "g_err service_error_joined = Some test_error"
    by (simp add: service_error_joined_def)
  with Wait_joins_all [OF service_error_exec]
  have ff: "first_failure service_error_run (NewService None [SIGUSR2]) = Some test_error"
    by metis
  have idle: "ctx_err registering = None"
    by (simp add: registering_def)
  with Wait_joins_all [OF registering_exec] have g: "g_err registering = None"
    by blast
  from service_error_exec join ar ff registering_exec idle g show ?thesis by blast
qed

text \<open>
  C8.  \<^verbatim>\<open>Wait\<close> has returned, or can return, only on a cancelled context.  In an
  execution from a parent context that is not cancelled, in which the parent is never
  cancelled, no signal is delivered and no task returns a non-nil error, \<^verbatim>\<open>Wait\<close> has
  not returned and cannot return, and the context is not cancelled.
\<close>

theorem Wait_blocks_until_cancelled:
  assumes "exec evs (NewService p sg) = Some s"
  shows "(wait_ret s \<noteq> None \<longrightarrow> ctx_err s \<noteq> None) \<and>
         (Wait s \<noteq> None \<longrightarrow> ctx_err s \<noteq> None) \<and>
         (p = None \<and> (\<forall>ev \<in> set evs. \<not> external ev \<and> \<not> task_failure ev) \<longrightarrow>
            wait_ret s = None \<and> Wait s = None \<and> ctx_err s = None)"
proof -
  note inv = slot_exec [OF assms]
  then have 1: "wait_ret s \<noteq> None \<longrightarrow> ctx_err s \<noteq> None"
    by (auto simp: slot_inv_def)
  from wg_exec [OF assms] have "Wait s \<noteq> None \<longrightarrow> mgr s = Closed"
    by (auto simp: op_defs running_def split: if_splits)
  with inv have 2: "Wait s \<noteq> None \<longrightarrow> ctx_err s \<noteq> None"
    by (auto simp: slot_inv_def)
  have 3: "wait_ret s = None \<and> Wait s = None \<and> ctx_err s = None"
    if "p = None" "\<forall>ev \<in> set evs. \<not> external ev \<and> \<not> task_failure ev"
  proof -
    from that assms have "idle s"
      using idle_exec [OF idle_NewService] by blast
    then show ?thesis using idle_blocks by (simp add: idle_def)
  qed
  from 1 2 3 show ?thesis by blast
qed

text \<open>
  Instances of C8: the registering service, where \<^verbatim>\<open>Wait\<close> blocks, and TestOnShutdown,
  where \<^verbatim>\<open>Wait\<close> has returned on a cancelled context.
\<close>

theorem Wait_blocks_until_cancelled_witness:
  "exec registering_run (NewService None []) = Some registering
   \<and> list_all (\<lambda>ev. \<not> external ev \<and> \<not> task_failure ev) registering_run
   \<and> wait_ret registering = None \<and> Wait registering = None \<and> ctx_err registering = None
   \<and> exec on_shutdown_run (NewService None []) = Some on_shutdown_joined
   \<and> wait_ret on_shutdown_joined \<noteq> None \<and> ctx_err on_shutdown_joined \<noteq> None"
proof -
  have quiet: "\<forall>ev \<in> set registering_run. \<not> external ev \<and> \<not> task_failure ev"
    by (simp add: registering_run_def)
  with Wait_blocks_until_cancelled [OF registering_exec]
  have a: "wait_ret registering = None \<and> Wait registering = None \<and> ctx_err registering = None"
    by blast
  have ret: "wait_ret on_shutdown_joined \<noteq> None"
    by (simp add: on_shutdown_joined_def)
  with Wait_blocks_until_cancelled [OF on_shutdown_exec]
  have b: "ctx_err on_shutdown_joined \<noteq> None"
    by blast
  from quiet have q: "list_all (\<lambda>ev. \<not> external ev \<and> \<not> task_failure ev) registering_run"
    by (simp add: list_all_iff)
  from registering_exec q a on_shutdown_exec ret b show ?thesis by blast
qed

text \<open>
  C9.  The error \<^verbatim>\<open>Wait\<close> returns is never nil: the hook manager returns
  \<^verbatim>\<open>ctx.Err()\<close>, which is not nil since it returns only on a cancelled context, so the slot
  holds an error once the manager has returned, and \<^verbatim>\<open>Wait\<close> returns after it.
\<close>

theorem Wait_error_not_nil:
  assumes "exec evs (NewService p sg) = Some s"
  shows "wait_ret s \<noteq> Some None \<and>
         (\<forall>s'. Wait s = Some s' \<longrightarrow> (\<exists>e. wait_ret s' = Some (Some e))) \<and>
         (\<forall>s'. fire Mgr_Exit s = Some s' \<longrightarrow> returned Mgr_Exit s \<noteq> None \<and> g_err s' \<noteq> None) \<and>
         (mgr s = Closed \<longrightarrow> ctx_err s \<noteq> None \<and> g_err s \<noteq> None)"
proof -
  note inv = slot_exec [OF assms]
  then have 1: "wait_ret s \<noteq> Some None"
    by (auto simp: slot_inv_def)
  from inv have 4: "mgr s = Closed \<longrightarrow> ctx_err s \<noteq> None \<and> g_err s \<noteq> None"
    by (auto simp: slot_inv_def)
  from wg_exec [OF assms] have "Wait s \<noteq> None \<longrightarrow> mgr s = Closed"
    by (auto simp: op_defs running_def split: if_splits)
  with 4 have 2: "\<forall>s'. Wait s = Some s' \<longrightarrow> (\<exists>e. wait_ret s' = Some (Some e))"
    by (auto simp: op_defs split: if_splits)
  from inv have 3: "\<forall>s'. fire Mgr_Exit s = Some s' \<longrightarrow>
      returned Mgr_Exit s \<noteq> None \<and> g_err s' \<noteq> None"
    by (auto simp: slot_inv_def split: mstate.splits bool.splits if_splits)
  from 1 2 3 4 show ?thesis by blast
qed

text \<open>An instance of C9: TestOnShutdown, where \<^verbatim>\<open>Wait\<close> returned "test error".\<close>

theorem Wait_error_not_nil_witness:
  "exec on_shutdown_run (NewService None []) = Some on_shutdown_joined
   \<and> wait_ret on_shutdown_joined \<noteq> Some None
   \<and> mgr on_shutdown_joined = Closed
   \<and> ctx_err on_shutdown_joined \<noteq> None \<and> g_err on_shutdown_joined \<noteq> None"
proof -
  have st: "mgr on_shutdown_joined = Closed"
    by (simp add: on_shutdown_joined_def)
  note inst = Wait_error_not_nil [OF on_shutdown_exec]
  from inst have a: "wait_ret on_shutdown_joined \<noteq> Some None" by blast
  from inst st have b: "ctx_err on_shutdown_joined \<noteq> None \<and> g_err on_shutdown_joined \<noteq> None"
    by blast
  from on_shutdown_exec a st b show ?thesis by blast
qed

section \<open>The shutdown hooks\<close>

text \<open>
  C3.  In every execution at run time, with \<open>s\<close> the state reached: what the manager has
  run is always a beginning of: the hooks of its queue in reverse order, one after the
  other, each begun and ended before the next; it is all of it once the manager has
  returned, and nothing while the context is not cancelled.  The queue holds the hooks that
  calls of \<^verbatim>\<open>OnShutdown\<close> sent; a step appends one hook to it, or leaves it as it is,
  while the context is not cancelled, and no step changes it afterwards.  From a cancelled
  context the manager, if every hook returns, runs the whole queue and returns.
\<close>

theorem hooks_drained_in_reverse:
  assumes "rt_exec es (rt_NewService p sg) = Some r" and "s = base r"
  shows "by_runner Manager (log s) = manager_log (mgr s) (funcs s) \<and>
         prefix (by_runner Manager (log s)) (drain_seq (funcs s)) \<and>
         (mgr s = Closed \<longrightarrow> by_runner Manager (log s) = drain_seq (funcs s)) \<and>
         (ctx_err s = None \<longrightarrow> mgr s = Accepting \<and> by_runner Manager (log s) = []) \<and>
         mset (funcs s) = mset (sent_hooks s) \<and>
         (\<forall>e r'. rt_fire e r = Some r' \<longrightarrow>
            (if ctx_err s = None
             then funcs (base r') = funcs s \<or>
                  (\<exists>c. e = Model (Send c) \<and> funcs (base r') = funcs s @ [fst (calls s ! c)])
             else funcs (base r') = funcs s)) \<and>
         (mgr s = Accepting \<and> ctx_err s \<noteq> None \<longrightarrow>
            (\<exists>r'. rt_exec (map Model (drain_events (length (funcs s)))) r = Some r' \<and>
                  mgr (base r') = Closed \<and> funcs (base r') = funcs s \<and>
                  log (base r') = log s @ drain_seq (funcs s)))"
proof -
  from rt_reach_model [OF assms(1)] assms(2)
  have run: "exec (model_events es) (NewService p sg) = Some s" and park: "park_inv r"
    by simp_all
  note m = mgr_exec [OF run] and q = queue_exec [OF run]
  from m have 1: "by_runner Manager (log s) = manager_log (mgr s) (funcs s)"
    by (simp add: mgr_inv_def)
  with manager_log_prefix [OF m]
  have 2: "prefix (by_runner Manager (log s)) (drain_seq (funcs s))"
    by simp
  from 1 have 3: "mgr s = Closed \<longrightarrow> by_runner Manager (log s) = drain_seq (funcs s)"
    by simp
  from q have 4: "ctx_err s = None \<longrightarrow> mgr s = Accepting \<and> by_runner Manager (log s) = []"
    by (simp add: queue_inv_def)
  from q have 5: "mset (funcs s) = mset (sent_hooks s)"
    by (simp add: queue_inv_def)
  have 6: "\<forall>e r'. rt_fire e r = Some r' \<longrightarrow>
            (if ctx_err s = None
             then funcs (base r') = funcs s \<or>
                  (\<exists>c. e = Model (Send c) \<and> funcs (base r') = funcs s @ [fst (calls s ! c)])
             else funcs (base r') = funcs s)"
    using funcs_rt_fire [OF park] assms(2) by blast
  have 7: "\<exists>r'. rt_exec (map Model (drain_events (length (funcs s)))) r = Some r' \<and>
                  mgr (base r') = Closed \<and> funcs (base r') = funcs s \<and>
                  log (base r') = log s @ drain_seq (funcs s)"
    if "mgr s = Accepting" "ctx_err s \<noteq> None"
  proof -
    from drain_run [OF that] obtain s' where
      s': "exec (drain_events (length (funcs s))) s = Some s'" "mgr s' = Closed"
          "funcs s' = funcs s" "log s' = log s @ drain_seq (funcs s)"
      by blast
    have "\<forall>c. Send c \<notin> set (drain_events (length (funcs s)))"
      by (auto simp: drain_events_def)
    from rt_exec_Model [OF this, of r s'] s'(1) assms(2) obtain r' where
      "rt_exec (map Model (drain_events (length (funcs s)))) r = Some r'" "base r' = s'"
      by auto
    with s' show ?thesis by auto
  qed
  from 1 2 3 4 5 6 7 show ?thesis by blast
qed

text \<open>
  An instance of C3: TestOnShutdown, where "shutdown-1" and "shutdown-2" were registered
  in this order and the manager ran "shutdown-2", then "shutdown-1".
\<close>

theorem hooks_drained_in_reverse_witness:
  "rt_exec rt_on_shutdown_run (rt_NewService None []) = Some rt_on_shutdown_joined
   \<and> on_shutdown_joined = base rt_on_shutdown_joined
   \<and> mgr on_shutdown_joined = Closed
   \<and> funcs on_shutdown_joined = [''shutdown-1'', ''shutdown-2'']
   \<and> by_runner Manager (log on_shutdown_joined) = drain_seq (funcs on_shutdown_joined)
   \<and> drain_seq (funcs on_shutdown_joined)
       = [Begin Manager ''shutdown-2'', End Manager ''shutdown-2'',
          Begin Manager ''shutdown-1'', End Manager ''shutdown-1'']"
proof -
  have b: "on_shutdown_joined = base rt_on_shutdown_joined"
    by (simp add: rt_on_shutdown_joined_def)
  have c: "mgr on_shutdown_joined = Closed"
    and f: "funcs on_shutdown_joined = [''shutdown-1'', ''shutdown-2'']"
    by (simp_all add: on_shutdown_joined_def)
  have d: "drain_seq (funcs on_shutdown_joined)
       = [Begin Manager ''shutdown-2'', End Manager ''shutdown-2'',
          Begin Manager ''shutdown-1'', End Manager ''shutdown-1'']"
    by (simp add: f drain_seq_def)
  from hooks_drained_in_reverse [OF rt_on_shutdown_exec b] c
  have e: "by_runner Manager (log on_shutdown_joined) = drain_seq (funcs on_shutdown_joined)"
    by blast
  from rt_on_shutdown_exec b c f e d show ?thesis by blast
qed

text \<open>
  C4.  In an execution at run time let \<^verbatim>\<open>OnShutdown(f)\<close> be called on a cancelled context,
  as call number \<open>c\<close>.  Whatever happens next, the call never sends \<open>f\<close> to the manager and
  the queue stays as it was, and what the call has run follows its status: nothing while in
  its \<^verbatim>\<open>select\<close>, the beginning of \<open>f\<close> while it executes it, and \<open>f\<close> begun and ended
  exactly once when it has returned.  While the call is in its \<^verbatim>\<open>select\<close> it cannot hand
  \<open>f\<close> over and cannot block; the case of line 89 is taken, and taking it begins \<open>f\<close> on
  the caller, leaving the queue alone; from there \<open>f\<close> runs to its end and the call returns,
  with \<open>f\<close> begun and ended once.  While the call executes \<open>f\<close>, the return of \<open>f\<close> ends it
  in the log and returns the call.
\<close>

theorem late_hook_runs_on_caller:
  assumes "rt_exec es (rt_NewService p sg) = Some r"
    and "ctx_err (base r) \<noteq> None"
    and "rt_exec (Model (Call_OnShutdown f) # es') r = Some r'"
    and "c = length (calls (base r))" and "s' = base r'"
  shows "c < length (calls s') \<and> fst (calls s' ! c) = f \<and>
         snd (calls s' ! c) \<noteq> Sent \<and> funcs s' = funcs (base r) \<and>
         by_runner (Caller c) (log s') = caller_log c f (snd (calls s' ! c)) \<and>
         (snd (calls s' ! c) = AtSelect \<longrightarrow>
            rt_fire (Model (Send c)) r' = None \<and> rt_fire (Call_Park c) r' = None \<and>
            (\<exists>r2. rt_fire (Model (Done_Call c)) r' = Some r2 \<and>
                  calls (base r2) = (calls s')[c := (f, Calling)] \<and>
                  log (base r2) = log s' @ [Begin (Caller c) f] \<and>
                  funcs (base r2) = funcs s') \<and>
            (\<exists>r3. rt_exec [Model (Done_Call c), Model (Done_Return c)] r' = Some r3 \<and>
                  calls (base r3) = (calls s')[c := (f, Called)] \<and>
                  log (base r3) = log s' @ [Begin (Caller c) f, End (Caller c) f] \<and>
                  funcs (base r3) = funcs s')) \<and>
         (snd (calls s' ! c) = Calling \<longrightarrow>
            (\<exists>r2. rt_fire (Model (Done_Return c)) r' = Some r2 \<and>
                  calls (base r2) = (calls s')[c := (f, Called)] \<and>
                  log (base r2) = log s' @ [End (Caller c) f] \<and>
                  funcs (base r2) = funcs s')) \<and>
         (snd (calls s' ! c) = Called \<longrightarrow>
            by_runner (Caller c) (log s') = [Begin (Caller c) f, End (Caller c) f])"
proof -
  from rt_reach_model [OF assms(1)]
  have run: "exec (model_events es) (NewService p sg) = Some (base r)" and park: "park_inv r"
    by simp_all
  from rt_exec_model [OF park assms(3)] assms(5)
  have "exec (model_events es') (OnShutdown f (base r)) = Some s'"
    by simp
  from late_call [OF run assms(2) this assms(4)]
  have late: "late_inv c f (funcs (base r)) s'"
    and log: "by_runner (Caller c) (log s') = caller_log c f (snd (calls s' ! c))"
    by simp_all
  from late have l: "ctx_err s' \<noteq> None" "c < length (calls s')" "fst (calls s' ! c) = f"
    by (simp_all add: late_inv_def)
  from park_exec [OF park assms(3)] l(1) assms(5)
  have quiet: "\<not> mgr_parked r'" "blocked r' = []"
    by (simp_all add: park_inv_def)
  have sel: "rt_fire (Model (Send c)) r' = None \<and> rt_fire (Call_Park c) r' = None \<and>
            (\<exists>r2. rt_fire (Model (Done_Call c)) r' = Some r2 \<and>
                  calls (base r2) = (calls s')[c := (f, Calling)] \<and>
                  log (base r2) = log s' @ [Begin (Caller c) f] \<and>
                  funcs (base r2) = funcs s') \<and>
            (\<exists>r3. rt_exec [Model (Done_Call c), Model (Done_Return c)] r' = Some r3 \<and>
                  calls (base r3) = (calls s')[c := (f, Called)] \<and>
                  log (base r3) = log s' @ [Begin (Caller c) f, End (Caller c) f] \<and>
                  funcs (base r3) = funcs s')"
    if "snd (calls s' ! c) = AtSelect"
    using that l quiet assms(5) by simp
  have call: "\<exists>r2. rt_fire (Model (Done_Return c)) r' = Some r2 \<and>
                  calls (base r2) = (calls s')[c := (f, Called)] \<and>
                  log (base r2) = log s' @ [End (Caller c) f] \<and>
                  funcs (base r2) = funcs s'"
    if "snd (calls s' ! c) = Calling"
    using that l assms(5) by simp
  from log have fin: "snd (calls s' ! c) = Called \<longrightarrow>
      by_runner (Caller c) (log s') = [Begin (Caller c) f, End (Caller c) f]"
    by simp
  from late log sel call fin show ?thesis
    by (simp add: late_inv_def)
qed

text \<open>
  An instance of C4: a task fails while the manager is blocked in its \<^verbatim>\<open>select\<close>; the
  context is cancelled and the manager has not yet taken the case of line 52.  A call of
  \<^verbatim>\<open>OnShutdown\<close> made now cannot hand its hook over and cannot block; its hook runs
  on the caller, here also while the manager drains its queue.
\<close>

theorem late_hook_runs_on_caller_witness:
  "rt_exec cancelled_run (rt_NewService None []) = Some cancelled
   \<and> ctx_err (base cancelled) \<noteq> None
   \<and> mgr (base cancelled) = Accepting
   \<and> 1 = length (calls (base cancelled))
   \<and> rt_exec [Model (Call_OnShutdown ''shutdown-3'')] cancelled
       = Some (cancelled\<lparr>base := OnShutdown ''shutdown-3'' (base cancelled)\<rparr>)
   \<and> snd (calls (OnShutdown ''shutdown-3'' (base cancelled)) ! 1) = AtSelect
   \<and> rt_fire (Model (Send 1)) (cancelled\<lparr>base := OnShutdown ''shutdown-3'' (base cancelled)\<rparr>)
       = None
   \<and> rt_fire (Call_Park 1) (cancelled\<lparr>base := OnShutdown ''shutdown-3'' (base cancelled)\<rparr>)
       = None
   \<and> (\<exists>r3. rt_exec [Model (Done_Call 1), Model (Done_Return 1)]
               (cancelled\<lparr>base := OnShutdown ''shutdown-3'' (base cancelled)\<rparr>) = Some r3
          \<and> calls (base r3) = [(''shutdown-1'', Sent), (''shutdown-3'', Called)]
          \<and> log (base r3) = [Begin (Caller 1) ''shutdown-3'', End (Caller 1) ''shutdown-3''])
   \<and> rt_exec (Model (Call_OnShutdown ''shutdown-3'') # late_run) cancelled = Some late_done
   \<and> snd (calls (base late_done) ! 1) = Called
   \<and> by_runner (Caller 1) (log (base late_done))
       = [Begin (Caller 1) ''shutdown-3'', End (Caller 1) ''shutdown-3'']
   \<and> funcs (base late_done) = funcs (base cancelled)"
proof -
  let ?r1 = "cancelled\<lparr>base := OnShutdown ''shutdown-3'' (base cancelled)\<rparr>"
  have st: "ctx_err (base cancelled) \<noteq> None" "mgr (base cancelled) = Accepting"
    "1 = length (calls (base cancelled))"
    by (simp_all add: cancelled_def)
  have made: "rt_exec [Model (Call_OnShutdown ''shutdown-3'')] cancelled = Some ?r1"
    by (simp add: cancelled_def OnShutdown_def wake_def)
  have sel: "snd (calls (OnShutdown ''shutdown-3'' (base cancelled)) ! 1) = AtSelect"
    and cs: "calls (OnShutdown ''shutdown-3'' (base cancelled))
               = [(''shutdown-1'', Sent), (''shutdown-3'', AtSelect)]"
    and lg: "log (OnShutdown ''shutdown-3'' (base cancelled)) = []"
    by (simp_all add: cancelled_def OnShutdown_def)
  have b: "OnShutdown ''shutdown-3'' (base cancelled) = base ?r1"
    by simp
  note first = late_hook_runs_on_caller [OF cancelled_exec st(1) made st(3) b]
  from first sel have no: "rt_fire (Model (Send 1)) ?r1 = None" "rt_fire (Call_Park 1) ?r1 = None"
    by blast+
  from first sel have "\<exists>r3. rt_exec [Model (Done_Call 1), Model (Done_Return 1)] ?r1 = Some r3 \<and>
      calls (base r3) = (calls (OnShutdown ''shutdown-3'' (base cancelled)))
                          [1 := (''shutdown-3'', Called)] \<and>
      log (base r3) = log (OnShutdown ''shutdown-3'' (base cancelled))
                        @ [Begin (Caller 1) ''shutdown-3'', End (Caller 1) ''shutdown-3'']"
    by blast
  then have go: "\<exists>r3. rt_exec [Model (Done_Call 1), Model (Done_Return 1)] ?r1 = Some r3
          \<and> calls (base r3) = [(''shutdown-1'', Sent), (''shutdown-3'', Called)]
          \<and> log (base r3) = [Begin (Caller 1) ''shutdown-3'', End (Caller 1) ''shutdown-3'']"
    by (simp add: cs lg)
  have fin: "snd (calls (base late_done) ! 1) = Called"
    by (simp add: late_done_def)
  note second = late_hook_runs_on_caller
    [OF cancelled_exec st(1) late_exec_done st(3) refl]
  from second fin have l: "by_runner (Caller 1) (log (base late_done))
       = [Begin (Caller 1) ''shutdown-3'', End (Caller 1) ''shutdown-3'']"
    by blast
  from second have q: "funcs (base late_done) = funcs (base cancelled)"
    by blast
  from cancelled_exec st made sel no go late_exec_done fin l q show ?thesis by blast
qed

text \<open>
  C10.  In every execution at run time, with \<open>s\<close> the state reached: while the context is
  not cancelled no hook has begun, the manager is at its \<^verbatim>\<open>select\<close>, the queue holds the
  hooks that were sent, and each call of \<^verbatim>\<open>OnShutdown\<close> either has returned with its
  hook in the queue or is in its \<^verbatim>\<open>select\<close>, where the hand-over can happen (once one
  side is blocked), which appends the hook to the queue and runs nothing.
\<close>

theorem hooks_not_run_without_cancel:
  assumes "rt_exec es (rt_NewService p sg) = Some r" and "s = base r" and "ctx_err s = None"
  shows "log s = [] \<and> mgr s = Accepting \<and> mset (funcs s) = mset (sent_hooks s) \<and>
         (\<forall>c < length (calls s).
            (snd (calls s ! c) = Sent \<and> fst (calls s ! c) \<in> set (funcs s)) \<or>
            (snd (calls s ! c) = AtSelect \<and>
             (\<exists>es' r'. model_events es' = [Send c] \<and> rt_exec es' r = Some r' \<and>
                   funcs (base r') = funcs s @ [fst (calls s ! c)] \<and> log (base r') = [])))"
proof -
  from rt_reach_model [OF assms(1)] assms(2)
  have run: "exec (model_events es) (NewService p sg) = Some s" and park: "park_inv r"
    by simp_all
  from queue_exec [OF run] assms(3)
  have q: "mset (funcs s) = mset (sent_hooks s)" "log s = []" "mgr s = Accepting"
    by (simp_all add: queue_inv_def)
  have "(snd (calls s ! c) = Sent \<and> fst (calls s ! c) \<in> set (funcs s)) \<or>
        (snd (calls s ! c) = AtSelect \<and>
         (\<exists>es' r'. model_events es' = [Send c] \<and> rt_exec es' r = Some r' \<and>
               funcs (base r') = funcs s @ [fst (calls s ! c)] \<and> log (base r') = []))"
    if c: "c < length (calls s)" for c
    using registered_or_ready [OF run assms(3) c]
  proof
    assume "snd (calls s ! c) = Sent \<and> fst (calls s ! c) \<in> set (funcs s)"
    then show ?thesis ..
  next
    assume a: "snd (calls s ! c) = AtSelect \<and>
          (\<exists>s'. fire (Send c) s = Some s' \<and> funcs s' = funcs s @ [fst (calls s ! c)]
                \<and> log s' = [])"
    then obtain s' where s': "fire (Send c) (base r) = Some s'"
      "funcs s' = funcs s @ [fst (calls s ! c)]" "log s' = []"
      using assms(2) by blast
    from model_fire_rt [OF park s'(1)] obtain es' r' where
      "model_events es' = [Send c]" "rt_exec es' r = Some r'" "base r' = s'"
      by blast
    with s'(2,3) a show ?thesis by blast
  qed
  with q show ?thesis by blast
qed

text \<open>
  An instance of C10: a service with "shutdown-1" registered and the call for
  "shutdown-2" in its \<^verbatim>\<open>select\<close>.
\<close>

theorem hooks_not_run_without_cancel_witness:
  "rt_exec rt_registering_run (rt_NewService None []) = Some rt_registering
   \<and> registering = base rt_registering
   \<and> ctx_err registering = None
   \<and> log registering = [] \<and> mgr registering = Accepting
   \<and> calls registering = [(''shutdown-1'', Sent), (''shutdown-2'', AtSelect)]
   \<and> ''shutdown-1'' \<in> set (funcs registering)
   \<and> (\<exists>es' r'. model_events es' = [Send 1] \<and> rt_exec es' rt_registering = Some r'
           \<and> funcs (base r') = funcs registering @ [''shutdown-2''] \<and> log (base r') = [])"
proof -
  have b: "registering = base rt_registering"
    by (simp add: rt_registering_def)
  have st: "ctx_err registering = None"
    and cs: "calls registering = [(''shutdown-1'', Sent), (''shutdown-2'', AtSelect)]"
    by (simp_all add: registering_def)
  note inst = hooks_not_run_without_cancel [OF rt_registering_exec b st]
  from inst have a: "log registering = []" "mgr registering = Accepting" by blast+
  from inst have all: "\<forall>c < length (calls registering).
      (snd (calls registering ! c) = Sent
         \<and> fst (calls registering ! c) \<in> set (funcs registering)) \<or>
      (snd (calls registering ! c) = AtSelect \<and>
         (\<exists>es' r'. model_events es' = [Send c] \<and> rt_exec es' rt_registering = Some r' \<and>
              funcs (base r') = funcs registering @ [fst (calls registering ! c)] \<and>
              log (base r') = []))"
    by blast
  have c0: "0 < length (calls registering)" "snd (calls registering ! 0) = Sent"
    "fst (calls registering ! 0) = ''shutdown-1''"
    by (simp_all add: cs)
  have c1: "1 < length (calls registering)" "snd (calls registering ! 1) = AtSelect"
    "fst (calls registering ! 1) = ''shutdown-2''"
    by (simp_all add: cs)
  from all [rule_format, OF c0(1)] c0(2,3)
  have m: "''shutdown-1'' \<in> set (funcs registering)"
    by auto
  from all [rule_format, OF c1(1)] c1(2,3)
  have h: "\<exists>es' r'. model_events es' = [Send 1] \<and> rt_exec es' rt_registering = Some r'
           \<and> funcs (base r') = funcs registering @ [''shutdown-2''] \<and> log (base r') = []"
    by auto
  from rt_registering_exec b st a cs m h show ?thesis by blast
qed

section \<open>The signal goroutine\<close>

text \<open>
  C6, as the specification states it: the signal goroutine returns the context's error if
  the context is cancelled first.  Two executions in which it does not: the context is
  cancelled while no signal is pending, or is cancelled from the start, then SIGUSR1 is
  delivered before the goroutine reaches the \<^verbatim>\<open>select\<close> of line 33, which, with both its
  cases ready, takes the signal: the goroutine returns the SignalError.
\<close>

theorem bridge_select_either_counterexample:
  "map_option ctx_err (exec [ParentCancel Canceled] (NewService None [SIGUSR1]))
     = Some (Some Canceled)
   \<and> map_option sigC (exec [ParentCancel Canceled] (NewService None [SIGUSR1])) = Some None
   \<and> map_option bridge
       (exec [ParentCancel Canceled, Deliver SIGUSR1, Bridge_Sig] (NewService None [SIGUSR1]))
     = Some (Some (Finished (Some (SignalErr \<lparr>Signal = SIGUSR1\<rparr>))))
   \<and> ctx_err (NewService (Some Canceled) [SIGUSR1]) = Some Canceled
   \<and> map_option bridge
       (exec [Deliver SIGUSR1, Bridge_Sig] (NewService (Some Canceled) [SIGUSR1]))
     = Some (Some (Finished (Some (SignalErr \<lparr>Signal = SIGUSR1\<rparr>))))
   \<and> SignalErr \<lparr>Signal = SIGUSR1\<rparr> \<noteq> Canceled"
  by (simp add: run_defs)

text \<open>
  C6, amended: the signal goroutine is started exactly when at least one signal was given
  to \<^verbatim>\<open>NewService\<close>.  When it returns through the case of line 34 the context is
  cancelled and it returns the context's error; when it returns through the case of line 36
  it returns the SignalError of the pending signal, one of those given.  On a cancelled
  context with no signal pending only the first case can be taken, with a signal pending
  and the context not cancelled only the second, and with both either.  What the goroutine
  has returned is never nil, and is the context's error or the SignalError of a signal
  given.
\<close>

theorem bridge_result:
  assumes "exec evs (NewService p sg) = Some s"
  shows "(bridge s \<noteq> None \<longleftrightarrow> sg \<noteq> []) \<and>
         (\<forall>s'. fire Bridge_Done s = Some s' \<longrightarrow>
            ctx_err s \<noteq> None \<and> bridge s' = Some (Finished (ctx_err s))) \<and>
         (\<forall>s'. fire Bridge_Sig s = Some s' \<longrightarrow>
            (\<exists>x \<in> set sg. sigC s = Some x \<and>
               bridge s' = Some (Finished (Some (SignalErr \<lparr>Signal = x\<rparr>))))) \<and>
         (bridge s = Some Running \<and> ctx_err s \<noteq> None \<and> sigC s = None \<longrightarrow>
            fire Bridge_Done s \<noteq> None \<and> fire Bridge_Sig s = None) \<and>
         (bridge s = Some Running \<and> sigC s \<noteq> None \<and> ctx_err s = None \<longrightarrow>
            fire Bridge_Sig s \<noteq> None \<and> fire Bridge_Done s = None) \<and>
         (bridge s = Some Running \<and> sigC s \<noteq> None \<and> ctx_err s \<noteq> None \<longrightarrow>
            fire Bridge_Sig s \<noteq> None \<and> fire Bridge_Done s \<noteq> None) \<and>
         (\<forall>r. bridge s = Some (Finished r) \<longrightarrow>
            r \<noteq> None \<and> (r = ctx_err s \<or> (\<exists>x \<in> set sg. r = Some (SignalErr \<lparr>Signal = x\<rparr>))))"
proof -
  note b = bridge_exec [OF assms]
  then have 1: "bridge s \<noteq> None \<longleftrightarrow> sg \<noteq> []"
    by (simp add: bridge_inv_def)
  have 2: "\<forall>s'. fire Bridge_Done s = Some s' \<longrightarrow>
            ctx_err s \<noteq> None \<and> bridge s' = Some (Finished (ctx_err s))"
    by (auto split: if_splits)
  from b have 3: "\<forall>s'. fire Bridge_Sig s = Some s' \<longrightarrow>
            (\<exists>x \<in> set sg. sigC s = Some x \<and>
               bridge s' = Some (Finished (Some (SignalErr \<lparr>Signal = x\<rparr>))))"
    by (auto simp: bridge_inv_def split: if_splits option.splits)
  have 4: "bridge s = Some Running \<and> ctx_err s \<noteq> None \<and> sigC s = None \<longrightarrow>
            fire Bridge_Done s \<noteq> None \<and> fire Bridge_Sig s = None"
    by auto
  have 5: "bridge s = Some Running \<and> sigC s \<noteq> None \<and> ctx_err s = None \<longrightarrow>
            fire Bridge_Sig s \<noteq> None \<and> fire Bridge_Done s = None"
    by auto
  have 6: "bridge s = Some Running \<and> sigC s \<noteq> None \<and> ctx_err s \<noteq> None \<longrightarrow>
            fire Bridge_Sig s \<noteq> None \<and> fire Bridge_Done s \<noteq> None"
    by auto
  from b have 7: "\<forall>r. bridge s = Some (Finished r) \<longrightarrow>
            r \<noteq> None \<and> (r = ctx_err s \<or> (\<exists>x \<in> set sg. r = Some (SignalErr \<lparr>Signal = x\<rparr>)))"
    by (simp add: bridge_inv_def)
  from 1 2 3 4 5 6 7 show ?thesis by blast
qed

text \<open>
  Instances of the amended C6: a service with SIGUSR1 pending on a context that is not
  cancelled, and TestServiceError, where the goroutine returned the context's error.
\<close>

theorem bridge_result_witness:
  "exec [Call_Go, Deliver SIGUSR1] (NewService None [SIGUSR1]) = Some signalled
   \<and> bridge signalled = Some Running \<and> sigC signalled = Some SIGUSR1
   \<and> ctx_err signalled = None
   \<and> fire Bridge_Done signalled = None
   \<and> fire Bridge_Sig signalled \<noteq> None
   \<and> exec service_error_run (NewService None [SIGUSR2]) = Some service_error_joined
   \<and> bridge service_error_joined = Some (Finished (Some Canceled))
   \<and> ctx_err service_error_joined = Some Canceled"
proof -
  have st: "bridge signalled = Some Running" "sigC signalled = Some SIGUSR1"
    "ctx_err signalled = None"
    by (simp_all add: signalled_def)
  then have ready: "bridge signalled = Some Running \<and> sigC signalled \<noteq> None
      \<and> ctx_err signalled = None"
    by simp
  with bridge_result [OF signalled_exec]
  have en: "fire Bridge_Sig signalled \<noteq> None \<and> fire Bridge_Done signalled = None"
    by blast
  have b: "bridge service_error_joined = Some (Finished (Some Canceled))"
    by (simp add: service_error_joined_def)
  with bridge_result [OF service_error_exec]
  have "Some Canceled = ctx_err service_error_joined
      \<or> (\<exists>x \<in> set [SIGUSR2]. Some Canceled = Some (SignalErr \<lparr>Signal = x\<rparr>))"
    by blast
  then have c: "ctx_err service_error_joined = Some Canceled"
    by auto
  from signalled_exec st en service_error_exec b c show ?thesis by blast
qed

section \<open>The message of a SignalError\<close>

text \<open>
  C7.  For every signal value \<open>x\<close>, \<^verbatim>\<open>Error()\<close> of a SignalError holding \<open>x\<close> is exactly
  the string "received " followed by the description \<^verbatim>\<open>x.String()\<close>; for SIGUSR1 it is
  "received user defined signal 1", the message the test TestSignal expects.
\<close>

theorem SignalError_Error_message:
  "Error \<lparr>Signal = x\<rparr> = ''received '' @ Signal_String x
   \<and> error_Error (SignalErr \<lparr>Signal = x\<rparr>) = ''received '' @ Signal_String x
   \<and> Error \<lparr>Signal = SIGUSR1\<rparr> = ''received user defined signal 1''"
  by (simp add: Error_def SIGUSR1_def)

end
